theory Spec2Isabelle
  imports
    Complex_Main
    "HOL-Library.AList"
    "HOL-Library.Product_Lexorder"
    "HOL-Library.List_Lexorder"
    "HOL-Library.Char_ord"
begin

section \<open>Data model (models/database.py, models/schemas.py)\<close>

text \<open>
  A Python \<^verbatim>\<open>datetime\<close> is either naive (a wall-clock reading without \<^verbatim>\<open>tzinfo\<close>) or
  timezone-aware. A naive value carries its wall clock in microseconds; an aware one
  its UTC instant in microseconds and the offset of its \<^verbatim>\<open>tzinfo\<close> from UTC, so that its
  wall clock is the sum of the two. Python orders two naive values by wall clock and
  two aware values by instant, and raises \<^verbatim>\<open>TypeError\<close> when one is naive and the other
  aware.
\<close>

datatype datetime = Naive int | Aware int int

datatype py_error =
  TypeError | AttributeError | ValueError | IntegrityError | OverflowError | NameError

text \<open>\<^verbatim>\<open>ensure_timezone_aware\<close> (repositories/session_repository.py): a naive value is read as UTC.\<close>

fun ensure_timezone_aware :: "datetime \<Rightarrow> datetime" where
  "ensure_timezone_aware (Naive t) = Aware t 0"
| "ensure_timezone_aware (Aware t off) = Aware t off"

text \<open>The UTC instant a value denotes once it is made timezone-aware.\<close>

fun instant :: "datetime \<Rightarrow> int" where
  "instant (Naive t) = t"
| "instant (Aware t off) = t"

text \<open>The wall clock a value shows: its date and time fields.\<close>

fun wall_clock :: "datetime \<Rightarrow> int" where
  "wall_clock (Naive t) = t"
| "wall_clock (Aware t off) = t + off"

text \<open>Python's \<^verbatim>\<open>a < b\<close> on datetimes.\<close>

fun dt_less :: "datetime \<Rightarrow> datetime \<Rightarrow> py_error + bool" where
  "dt_less (Naive a) (Naive b) = Inr (a < b)"
| "dt_less (Aware a offa) (Aware b offb) = Inr (a < b)"
| "dt_less (Naive a) (Aware b offb) = Inl TypeError"
| "dt_less (Aware a offa) (Naive b) = Inl TypeError"

text \<open>Python's \<^verbatim>\<open>dt + timedelta\<close>: the awareness and the offset are kept.\<close>

fun dt_add :: "datetime \<Rightarrow> int \<Rightarrow> datetime" where
  "dt_add (Naive t) d = Naive (t + d)"
| "dt_add (Aware t off) d = Aware (t + d) off"

definition hours :: "int \<Rightarrow> int" where
  "hours h = h * 3600000000"

definition days :: "int \<Rightarrow> int" where
  "days d = d * 86400000000"

datatype AuditEventType =
    WORKBOOK_NEW | WORKBOOK_OPEN | WORKBOOK_CLOSE | WORKBOOK_SAVE
  | WORKBOOK_ACTIVATE | WORKBOOK_DEACTIVATE
  | CELL_CHANGE | SELECTION_CHANGE | SHEET_ADD | SHEET_DELETE | SHEET_RENAME
  | SHEET_ACTIVATE
  | SESSION_START | SESSION_END | ADDIN_LOAD | ADDIN_UNLOAD | ERROR

text \<open>
  \<^verbatim>\<open>AuditEventCreate\<close>. The field validator of \<^verbatim>\<open>AuditEventBase\<close> makes every event
  timestamp timezone-aware before any code below sees it, and every later comparison
  of event timestamps is one of aware values or is done by the store, so an event
  timestamp is kept as its UTC instant in microseconds. Events are taken at the offset
  the frontend sends, UTC (\<^verbatim>\<open>Z\<close>); for them the instant is also the wall clock that the
  default store keeps in the row. A UUID is an opaque number.
\<close>

record audit_event_create =
  event_id :: nat
  timestamp :: int
  event_type :: AuditEventType
  user_name :: "string option"
  machine_name :: "string option"
  user_domain :: "string option"
  session_id :: "string option"
  workbook_name :: "string option"
  workbook_path :: "string option"
  sheet_name :: "string option"
  cell_address :: "string option"
  cell_count :: "int option"
  old_value :: "string option"
  new_value :: "string option"
  formula :: "string option"
  details :: "string option"
  error_message :: "string option"
  correlation_id :: "string option"

text \<open>A row of \<^verbatim>\<open>audit_events\<close>: the event and the server-assigned \<^verbatim>\<open>created_at\<close>.\<close>

record audit_event = audit_event_create +
  created_at :: int

text \<open>
  A row of \<^verbatim>\<open>sessions\<close>. The fields carry the prefix \<open>sess_\<close> because a record field
  name is global. \<^verbatim>\<open>start_time\<close> is a \<open>datetime\<close>: the repository itself normalises the
  stored value before comparing it, since a backend may hand it back naive. The
  server-maintained \<^verbatim>\<open>created_at\<close>/\<^verbatim>\<open>updated_at\<close> of a session are read by no function
  below and are left out.
\<close>

record session =
  sess_session_id :: string
  sess_user_name :: "string option"
  sess_machine_name :: "string option"
  sess_start_time :: datetime
  sess_end_time :: "datetime option"
  sess_event_count :: int

record tables =
  events :: "audit_event list"
  sessions :: "session list"

text \<open>
  The store behind one \<^verbatim>\<open>AsyncSession\<close>: the committed tables, the tables as the open
  transaction sees them (flushed, not yet committed), and the reading of the server's
  clock that \<^verbatim>\<open>func.now()\<close> gives.
\<close>

record db =
  committed :: tables
  pending :: tables
  server_now :: int

definition commit :: "db \<Rightarrow> db" where
  "commit d = d\<lparr>committed := pending d\<rparr>"

definition rollback :: "db \<Rightarrow> db" where
  "rollback d = d\<lparr>pending := committed d\<rparr>"

record settings =
  max_batch_size :: int
  event_retention_days :: int

text \<open>
  The entries of \<^verbatim>\<open>BatchIngestResponse.errors\<close>: the batch-size message with its two
  numbers, or \<^verbatim>\<open>str(e)\<close> of the exception caught.
\<close>

datatype message = Batch_size_exceeds_maximum nat int | Exception_text py_error

record BatchIngestResponse =
  accepted :: nat
  rejected :: nat
  errors :: "message list"
  processing_time_ms :: rat

section \<open>Session repository (repositories/session_repository.py)\<close>

text \<open>
  \<^verbatim>\<open>upsert_session\<close>. The select is by primary key. An existing row gets the new actor
  fields and, when its normalised start is later than the normalised new start, the
  normalised new start; otherwise a row with \<^verbatim>\<open>event_count = 0\<close> is added. The test
  \<^verbatim>\<open>existing_start > new_start\<close> is Python's comparison of the two normalised values; both
  are timezone-aware, so it does not raise.
\<close>

definition upsert_existing :: "string option \<Rightarrow> string option \<Rightarrow> datetime \<Rightarrow> session \<Rightarrow> session" where
  "upsert_existing user machine start_time existing =
     (let existing_start = ensure_timezone_aware (sess_start_time existing);
          new_start = ensure_timezone_aware start_time
      in existing\<lparr>sess_user_name := user, sess_machine_name := machine,
           sess_start_time :=
             (if dt_less new_start existing_start = Inr True then new_start
              else sess_start_time existing)\<rparr>)"

definition upsert_session ::
  "db \<Rightarrow> string \<Rightarrow> string option \<Rightarrow> string option \<Rightarrow> datetime \<Rightarrow> db" where
  "upsert_session d sid user machine start_time =
     (let rows = sessions (pending d) in
      case find (\<lambda>s. sess_session_id s = sid) rows of
        Some existing \<Rightarrow>
          d\<lparr>pending := (pending d)\<lparr>sessions :=
              map (\<lambda>s. if sess_session_id s = sid
                        then upsert_existing user machine start_time s else s) rows\<rparr>\<rparr>
      | None \<Rightarrow>
          d\<lparr>pending := (pending d)\<lparr>sessions :=
              rows @ [\<lparr>sess_session_id = sid, sess_user_name = user,
                       sess_machine_name = machine,
                       sess_start_time = ensure_timezone_aware start_time,
                       sess_end_time = None, sess_event_count = 0\<rparr>]\<rparr>\<rparr>)"

text \<open>\<^verbatim>\<open>increment_event_count\<close>: an UPDATE of the rows with that id, flushed.\<close>

definition increment_event_count :: "db \<Rightarrow> string \<Rightarrow> int \<Rightarrow> db" where
  "increment_event_count d sid increment =
     d\<lparr>pending := (pending d)\<lparr>sessions :=
         map (\<lambda>s. if sess_session_id s = sid
                   then s\<lparr>sess_event_count := sess_event_count s + increment\<rparr> else s)
           (sessions (pending d))\<rparr>\<rparr>"

text \<open>\<^verbatim>\<open>end_session\<close>: normalise, UPDATE the rows with that id, commit.\<close>

definition end_session :: "db \<Rightarrow> string \<Rightarrow> datetime \<Rightarrow> db" where
  "end_session d sid end_time =
     commit (d\<lparr>pending := (pending d)\<lparr>sessions :=
         map (\<lambda>s. if sess_session_id s = sid
                   then s\<lparr>sess_end_time := Some (ensure_timezone_aware end_time)\<rparr> else s)
           (sessions (pending d))\<rparr>\<rparr>)"

text \<open>
  \<^verbatim>\<open>get_active_sessions\<close>: the rows without an end time, latest start first. The store
  orders by the instant.
\<close>

definition get_active_sessions :: "db \<Rightarrow> session list" where
  "get_active_sessions d =
     rev (sort_key (\<lambda>s. instant (sess_start_time s))
       (filter (\<lambda>s. sess_end_time s = None) (sessions (pending d))))"

section \<open>The default store between two sessions (config.py, infrastructure/database.py)\<close>

text \<open>
  \<^verbatim>\<open>database_url\<close> defaults to \<^verbatim>\<open>sqlite+aiosqlite\<close>, and every request and every tick opens
  an \<^verbatim>\<open>AsyncSession\<close> of its own. SQLite keeps a \<^verbatim>\<open>DateTime\<close> column as the wall-clock
  fields of the value written and hands it back without \<^verbatim>\<open>tzinfo\<close>: this is why the
  repository normalises \<^verbatim>\<open>existing.start_time\<close>. What a later session reads from that
  store are the committed tables with each session's start and end read back so.
\<close>

definition sqlite_read_back :: "datetime \<Rightarrow> datetime" where
  "sqlite_read_back dt = Naive (wall_clock dt)"

definition sqlite_session_row :: "session \<Rightarrow> session" where
  "sqlite_session_row s =
     s\<lparr>sess_start_time := sqlite_read_back (sess_start_time s),
       sess_end_time := map_option sqlite_read_back (sess_end_time s)\<rparr>"

definition next_session_sqlite :: "db \<Rightarrow> db" where
  "next_session_sqlite d =
     \<lparr>committed = (committed d)\<lparr>sessions := map sqlite_session_row (sessions (committed d))\<rparr>,
      pending = (committed d)\<lparr>sessions := map sqlite_session_row (sessions (committed d))\<rparr>,
      server_now = server_now d\<rparr>"

section \<open>Ingestion (services/event_service.py, repositories/event_repository.py)\<close>

text \<open>
  The first loop of \<^verbatim>\<open>_update_sessions\<close>. \<^verbatim>\<open>session_data\<close> is a dict in insertion order:
  an association list, assigned with \<open>AList.update\<close> (in place when the key is there,
  at the end when it is not). An event whose \<^verbatim>\<open>session_id\<close> is \<^verbatim>\<open>None\<close> or empty is
  skipped; the first event of an id stores its user, machine and timestamp; a later
  event replaces all three when its timestamp is strictly earlier.
\<close>

type_synonym session_data = "(string \<times> string option \<times> string option \<times> int) list"

definition session_data_step :: "session_data \<Rightarrow> ('a audit_event_create_scheme) \<Rightarrow> session_data" where
  "session_data_step sd e =
     (case session_id e of
        None \<Rightarrow> sd
      | Some sid \<Rightarrow>
          if sid = [] then sd
          else (case map_of sd sid of
                  None \<Rightarrow> AList.update sid (user_name e, machine_name e, timestamp e) sd
                | Some (u, m, existing_time) \<Rightarrow>
                    if timestamp e < existing_time
                    then AList.update sid (user_name e, machine_name e, timestamp e) sd
                    else sd))"

definition collect_session_data :: "('a audit_event_create_scheme) list \<Rightarrow> session_data" where
  "collect_session_data evs = foldl session_data_step [] evs"

text \<open>\<^verbatim>\<open>sum(1 for e in events if e.session_id == session_id)\<close>\<close>

definition session_event_count :: "('a audit_event_create_scheme) list \<Rightarrow> string \<Rightarrow> int" where
  "session_event_count evs sid = int (length (filter (\<lambda>e. session_id e = Some sid) evs))"

text \<open>
  The second loop: for each entry, in the dict's order, the upsert and then the
  increment by the number of the batch's events with that id.
\<close>

definition upsert_and_count ::
  "('a audit_event_create_scheme) list \<Rightarrow> db \<Rightarrow> string \<times> string option \<times> string option \<times> int \<Rightarrow> db" where
  "upsert_and_count evs d item =
     (case item of (sid, user, machine, start_time) \<Rightarrow>
        increment_event_count
          (upsert_session d sid user machine (Aware start_time 0))
          sid (session_event_count evs sid))"

definition update_sessions :: "db \<Rightarrow> ('a audit_event_create_scheme) list \<Rightarrow> db" where
  "update_sessions d evs = foldl (upsert_and_count evs) d (collect_session_data evs)"

text \<open>
  \<^verbatim>\<open>bulk_create\<close>. The slices \<^verbatim>\<open>event_dicts[i:i + batch_size]\<close> for
  \<^verbatim>\<open>i in range(0, len(event_dicts), batch_size)\<close>, for a positive step.
\<close>

function chunked :: "nat \<Rightarrow> 'a list \<Rightarrow> 'a list list" where
  "chunked n xs = (if n = 0 \<or> xs = [] then [] else take n xs # chunked n (drop n xs))"
  by pat_completeness auto
termination
  by (relation "measure (\<lambda>(n, xs). length xs)") auto

declare chunked.simps [simp del]

text \<open>\<^verbatim>\<open>AuditEvent(**event_dict)\<close>: the eighteen fields copied, \<^verbatim>\<open>created_at\<close> from the server.\<close>

definition to_row :: "int \<Rightarrow> audit_event_create \<Rightarrow> audit_event" where
  "to_row now e =
     \<lparr>event_id = event_id e, timestamp = timestamp e, event_type = event_type e,
      user_name = user_name e, machine_name = machine_name e,
      user_domain = user_domain e, session_id = session_id e,
      workbook_name = workbook_name e, workbook_path = workbook_path e,
      sheet_name = sheet_name e, cell_address = cell_address e,
      cell_count = cell_count e, old_value = old_value e, new_value = new_value e,
      formula = formula e, details = details e, error_message = error_message e,
      correlation_id = correlation_id e, created_at = now\<rparr>"

text \<open>
  \<^verbatim>\<open>session.add_all(...)\<close> and \<^verbatim>\<open>session.flush()\<close>: the INSERT of one slice. \<^verbatim>\<open>event_id\<close> is
  the primary key, so the flush raises when an id of the slice is already in the table
  or occurs twice in the slice.
\<close>

definition flush_events :: "db \<Rightarrow> audit_event_create list \<Rightarrow> py_error + db" where
  "flush_events d batch =
     (let rows = events (pending d) @ map (to_row (server_now d)) batch in
      if distinct (map event_id rows)
      then Inr (d\<lparr>pending := (pending d)\<lparr>events := rows\<rparr>\<rparr>)
      else Inl IntegrityError)"

fun insert_batches :: "db \<Rightarrow> audit_event_create list list \<Rightarrow> nat \<Rightarrow> py_error + (db \<times> nat)" where
  "insert_batches d [] total_inserted = Inr (d, total_inserted)"
| "insert_batches d (batch # rest) total_inserted =
     (case flush_events d batch of
        Inl e \<Rightarrow> Inl e
      | Inr d' \<Rightarrow> insert_batches d' rest (total_inserted + length batch))"

text \<open>
  The body of the \<^verbatim>\<open>try\<close>: a zero step makes \<^verbatim>\<open>range\<close> raise \<^verbatim>\<open>ValueError\<close>, a negative
  step gives no slice at all; after the loop comes the commit.
\<close>

definition bulk_create_try :: "db \<Rightarrow> audit_event_create list \<Rightarrow> int \<Rightarrow> py_error + (db \<times> nat)" where
  "bulk_create_try d evs batch_size =
     (if batch_size = 0 then Inl ValueError
      else (case insert_batches d
                   (if batch_size < 0 then [] else chunked (nat batch_size) evs) 0 of
              Inl e \<Rightarrow> Inl e
            | Inr (d', total_inserted) \<Rightarrow> Inr (commit d', total_inserted)))"

text \<open>
  \<^verbatim>\<open>bulk_create\<close>: an empty list returns 0 at once; an exception in the \<^verbatim>\<open>try\<close> rolls the
  transaction back and is raised again. The store comes back in either case.
\<close>

definition bulk_create :: "db \<Rightarrow> audit_event_create list \<Rightarrow> int \<Rightarrow> db \<times> (py_error + nat)" where
  "bulk_create d evs batch_size =
     (if evs = [] then (d, Inr 0)
      else (case bulk_create_try d evs batch_size of
              Inr (d', total_inserted) \<Rightarrow> (d', Inr total_inserted)
            | Inl e \<Rightarrow> (rollback d, Inl e)))"

text \<open>
  \<^verbatim>\<open>ingest_batch\<close>. \<open>t0\<close> and \<open>t1\<close> are the two readings of the clock, in microseconds.
  The only calls that can raise inside the \<^verbatim>\<open>try\<close> are those of \<^verbatim>\<open>bulk_create\<close>.
\<close>

definition ingest_batch ::
  "settings \<Rightarrow> int \<Rightarrow> int \<Rightarrow> db \<Rightarrow> audit_event_create list \<Rightarrow> bool \<Rightarrow> BatchIngestResponse \<times> db" where
  "ingest_batch cfg t0 t1 d evs track_sessions =
     (if int (length evs) > max_batch_size cfg
      then (\<lparr>accepted = 0, rejected = length evs,
             errors = [Batch_size_exceeds_maximum (length evs) (max_batch_size cfg)],
             processing_time_ms = 0\<rparr>, d)
      else
        (let d1 = (if track_sessions then update_sessions d evs else d) in
         case bulk_create d1 evs (max_batch_size cfg) of
           (d2, Inr inserted) \<Rightarrow>
             (\<lparr>accepted = inserted, rejected = 0, errors = [],
               processing_time_ms = of_int (t1 - t0) / 1000\<rparr>, d2)
         | (d2, Inl e) \<Rightarrow>
             (\<lparr>accepted = 0, rejected = length evs, errors = [Exception_text e],
               processing_time_ms = of_int (t1 - t0) / 1000\<rparr>, d2)))"

section \<open>Query engine (repositories/event_repository.py)\<close>

text \<open>
  \<^verbatim>\<open>EventQueryRequest\<close>. The two time bounds are timezone-aware by the schema's
  validator, with the offset the client gave them; \<^verbatim>\<open>offset\<close> and \<^verbatim>\<open>limit\<close> are validated
  non-negative. The
  correlation filter carries the prefix \<open>q_\<close> because the event has a field of that name.
\<close>

record EventQueryRequest =
  event_types :: "AuditEventType list option"
  user_names :: "string list option"
  session_ids :: "string list option"
  workbook_names :: "string list option"
  q_correlation_id :: "string option"
  start_time :: "datetime option"
  end_time :: "datetime option"
  offset :: nat
  limit :: nat
  order_by :: string
  order_desc :: bool

text \<open>The request with every field at the default the schema declares.\<close>

definition default_query :: EventQueryRequest where
  "default_query =
     \<lparr>event_types = None, user_names = None, session_ids = None, workbook_names = None,
      q_correlation_id = None, start_time = None, end_time = None,
      offset = 0, limit = 100, order_by = ''timestamp'', order_desc = True\<rparr>"

text \<open>
  \<^verbatim>\<open>if query_params.xs: filters.append(column.in_(xs))\<close>: an absent or empty list is no
  filter; a NULL column value is in no list.
\<close>

definition in_filter :: "'a list option \<Rightarrow> 'a option \<Rightarrow> bool" where
  "in_filter xs v =
     (case xs of
        None \<Rightarrow> True
      | Some [] \<Rightarrow> True
      | Some (y # ys) \<Rightarrow> (case v of None \<Rightarrow> False | Some x \<Rightarrow> x \<in> set (y # ys)))"

text \<open>
  The filters of \<^verbatim>\<open>query_events\<close>, joined by \<^verbatim>\<open>and_\<close>. A time bound is never converted to
  UTC: the default store binds it as it stores a timestamp, by its wall clock, and
  compares the two wall clocks.
\<close>

definition matches :: "EventQueryRequest \<Rightarrow> audit_event \<Rightarrow> bool" where
  "matches q e \<longleftrightarrow>
     in_filter (event_types q) (Some (event_type e)) \<and>
     in_filter (user_names q) (user_name e) \<and>
     in_filter (session_ids q) (session_id e) \<and>
     in_filter (workbook_names q) (workbook_name e) \<and>
     (case q_correlation_id q of
        None \<Rightarrow> True
      | Some c \<Rightarrow> c = [] \<or> correlation_id e = Some c) \<and>
     (case start_time q of None \<Rightarrow> True | Some t \<Rightarrow> timestamp e \<ge> wall_clock t) \<and>
     (case end_time q of None \<Rightarrow> True | Some t \<Rightarrow> timestamp e \<le> wall_clock t)"

text \<open>
  \<^verbatim>\<open>getattr(AuditEvent, query_params.order_by, AuditEvent.timestamp)\<close>. The class body of
  \<^verbatim>\<open>AuditEvent\<close> binds nineteen mapped columns and three names that are no columns:
  \<^verbatim>\<open>__tablename__\<close> (a str), \<^verbatim>\<open>__table_args__\<close> (a tuple) and \<^verbatim>\<open>__repr__\<close> (a function).
  \<^verbatim>\<open>getattr\<close> also finds the names that the bases of the class and the mapper bind,
  such as \<^verbatim>\<open>metadata\<close>, \<^verbatim>\<open>registry\<close>, \<^verbatim>\<open>__table__\<close>, \<^verbatim>\<open>__init__\<close> and \<^verbatim>\<open>__doc__\<close>; none of them
  is a column. These are declared outside the sources, so which names they are is the
  parameter \<open>bound_elsewhere\<close>. An object that is no column has neither \<^verbatim>\<open>desc\<close> nor
  \<^verbatim>\<open>asc\<close>. The default is returned only for a name that is bound nowhere.
\<close>

datatype column =
    Col_event_id | Col_timestamp | Col_created_at | Col_event_type
  | Col_user_name | Col_machine_name | Col_user_domain | Col_session_id
  | Col_workbook_name | Col_workbook_path | Col_sheet_name
  | Col_cell_address | Col_cell_count | Col_old_value | Col_new_value | Col_formula
  | Col_details | Col_error_message | Col_correlation_id

datatype class_attr = Column column | Plain_object

definition AuditEvent_attrs :: "(string \<times> class_attr) list" where
  "AuditEvent_attrs =
     [(''__tablename__'', Plain_object),
      (''event_id'', Column Col_event_id),
      (''timestamp'', Column Col_timestamp),
      (''created_at'', Column Col_created_at),
      (''event_type'', Column Col_event_type),
      (''user_name'', Column Col_user_name),
      (''machine_name'', Column Col_machine_name),
      (''user_domain'', Column Col_user_domain),
      (''session_id'', Column Col_session_id),
      (''workbook_name'', Column Col_workbook_name),
      (''workbook_path'', Column Col_workbook_path),
      (''sheet_name'', Column Col_sheet_name),
      (''cell_address'', Column Col_cell_address),
      (''cell_count'', Column Col_cell_count),
      (''old_value'', Column Col_old_value),
      (''new_value'', Column Col_new_value),
      (''formula'', Column Col_formula),
      (''details'', Column Col_details),
      (''error_message'', Column Col_error_message),
      (''correlation_id'', Column Col_correlation_id),
      (''__table_args__'', Plain_object),
      (''__repr__'', Plain_object)]"

definition order_column :: "(string \<Rightarrow> bool) \<Rightarrow> string \<Rightarrow> class_attr" where
  "order_column bound_elsewhere name =
     (case map_of AuditEvent_attrs name of
        Some a \<Rightarrow> a
      | None \<Rightarrow> if bound_elsewhere name then Plain_object else Column Col_timestamp)"

text \<open>The enum is stored by member name (\<^verbatim>\<open>native_enum=False\<close>).\<close>

fun event_type_name :: "AuditEventType \<Rightarrow> string" where
  "event_type_name WORKBOOK_NEW = ''WORKBOOK_NEW''"
| "event_type_name WORKBOOK_OPEN = ''WORKBOOK_OPEN''"
| "event_type_name WORKBOOK_CLOSE = ''WORKBOOK_CLOSE''"
| "event_type_name WORKBOOK_SAVE = ''WORKBOOK_SAVE''"
| "event_type_name WORKBOOK_ACTIVATE = ''WORKBOOK_ACTIVATE''"
| "event_type_name WORKBOOK_DEACTIVATE = ''WORKBOOK_DEACTIVATE''"
| "event_type_name CELL_CHANGE = ''CELL_CHANGE''"
| "event_type_name SELECTION_CHANGE = ''SELECTION_CHANGE''"
| "event_type_name SHEET_ADD = ''SHEET_ADD''"
| "event_type_name SHEET_DELETE = ''SHEET_DELETE''"
| "event_type_name SHEET_RENAME = ''SHEET_RENAME''"
| "event_type_name SHEET_ACTIVATE = ''SHEET_ACTIVATE''"
| "event_type_name SESSION_START = ''SESSION_START''"
| "event_type_name SESSION_END = ''SESSION_END''"
| "event_type_name ADDIN_LOAD = ''ADDIN_LOAD''"
| "event_type_name ADDIN_UNLOAD = ''ADDIN_UNLOAD''"
| "event_type_name ERROR = ''ERROR''"

text \<open>
  The store's ordering of a column, as a key: NULL first, then numbers and instants by
  value and text by its characters.
\<close>

type_synonym order_key = "nat \<times> int \<times> string"

definition text_key :: "string option \<Rightarrow> order_key" where
  "text_key v = (case v of None \<Rightarrow> (0, 0, []) | Some s \<Rightarrow> (1, 0, s))"

definition number_key :: "int option \<Rightarrow> order_key" where
  "number_key v = (case v of None \<Rightarrow> (0, 0, []) | Some n \<Rightarrow> (1, n, []))"

fun column_key :: "column \<Rightarrow> audit_event \<Rightarrow> order_key" where
  "column_key Col_event_id e = number_key (Some (int (event_id e)))"
| "column_key Col_timestamp e = number_key (Some (timestamp e))"
| "column_key Col_created_at e = number_key (Some (created_at e))"
| "column_key Col_event_type e = text_key (Some (event_type_name (event_type e)))"
| "column_key Col_user_name e = text_key (user_name e)"
| "column_key Col_machine_name e = text_key (machine_name e)"
| "column_key Col_user_domain e = text_key (user_domain e)"
| "column_key Col_session_id e = text_key (session_id e)"
| "column_key Col_workbook_name e = text_key (workbook_name e)"
| "column_key Col_workbook_path e = text_key (workbook_path e)"
| "column_key Col_sheet_name e = text_key (sheet_name e)"
| "column_key Col_cell_address e = text_key (cell_address e)"
| "column_key Col_cell_count e = number_key (cell_count e)"
| "column_key Col_old_value e = text_key (old_value e)"
| "column_key Col_new_value e = text_key (new_value e)"
| "column_key Col_formula e = text_key (formula e)"
| "column_key Col_details e = text_key (details e)"
| "column_key Col_error_message e = text_key (error_message e)"
| "column_key Col_correlation_id e = text_key (correlation_id e)"

text \<open>
  \<^verbatim>\<open>query_events\<close>: the count over the filtered rows is taken first; then the sort
  column is looked up and \<^verbatim>\<open>.desc()\<close> or \<^verbatim>\<open>.asc()\<close> is called on it, which raises
  \<^verbatim>\<open>AttributeError\<close> on an object that is no column; then offset and limit.
\<close>

definition query_events ::
  "(string \<Rightarrow> bool) \<Rightarrow> db \<Rightarrow> EventQueryRequest \<Rightarrow> py_error + (audit_event list \<times> nat)" where
  "query_events bound_elsewhere d q =
     (let matching = filter (matches q) (events (pending d));
          total_count = length matching
      in case order_column bound_elsewhere (order_by q) of
           Plain_object \<Rightarrow> Inl AttributeError
         | Column c \<Rightarrow>
             (let ordered = (if order_desc q then rev (sort_key (column_key c) matching)
                             else sort_key (column_key c) matching)
              in Inr (take (limit q) (drop (offset q) ordered), total_count)))"

section \<open>Retention (repositories/event_repository.py, services/event_service.py)\<close>

text \<open>
  One DELETE of the rows that satisfy \<open>P\<close>: at most \<open>n\<close> of them when the statement
  carries \<^verbatim>\<open>LIMIT n\<close> (\<open>Some n\<close>), in table order, and all of them otherwise.
\<close>

fun delete_where :: "nat option \<Rightarrow> ('a \<Rightarrow> bool) \<Rightarrow> 'a list \<Rightarrow> 'a list" where
  "delete_where cap P [] = []"
| "delete_where cap P (x # xs) =
     (if P x \<and> cap \<noteq> Some 0
      then delete_where (map_option (\<lambda>n. n - 1) cap) P xs
      else x # delete_where cap P xs)"

text \<open>
  One pass of the loop of \<^verbatim>\<open>delete_old_events\<close>: the statement is
  \<^verbatim>\<open>stmt.limit(batch_size) if hasattr(stmt, 'limit') else stmt\<close>, so whether the library's
  delete statement has a \<^verbatim>\<open>limit\<close> is a parameter, \<open>has_limit\<close>. The \<^verbatim>\<open>Delete\<close> construct of
  SQLAlchemy has no such attribute: the runs of the service are those with
  \<open>has_limit = False\<close>. Then the commit.
\<close>

definition delete_pass :: "bool \<Rightarrow> int \<Rightarrow> nat \<Rightarrow> db \<Rightarrow> db" where
  "delete_pass has_limit before_date batch_size d =
     commit (d\<lparr>pending := (pending d)\<lparr>events :=
        delete_where (if has_limit then Some batch_size else None)
          (\<lambda>e. timestamp e < before_date) (events (pending d))\<rparr>\<rparr>)"

text \<open>\<^verbatim>\<open>result.rowcount\<close> of that pass.\<close>

definition deleted_count :: "bool \<Rightarrow> int \<Rightarrow> nat \<Rightarrow> db \<Rightarrow> nat" where
  "deleted_count has_limit before_date batch_size d =
     length (events (pending d))
       - length (events (pending (delete_pass has_limit before_date batch_size d)))"

text \<open>
  The \<^verbatim>\<open>while True\<close> loop. It returns the store, \<^verbatim>\<open>total_deleted\<close> and the values of
  \<^verbatim>\<open>batch_deleted\<close> it logged, one per pass; \<open>None\<close> is a loop that never ends.
\<close>

partial_function (option) delete_loop ::
  "bool \<Rightarrow> int \<Rightarrow> nat \<Rightarrow> db \<Rightarrow> nat \<Rightarrow> nat list \<Rightarrow> (db \<times> nat \<times> nat list) option" where
  "delete_loop has_limit before_date batch_size d total_deleted logged =
     (if deleted_count has_limit before_date batch_size d < batch_size
      then Some (delete_pass has_limit before_date batch_size d,
                 total_deleted + deleted_count has_limit before_date batch_size d,
                 logged @ [deleted_count has_limit before_date batch_size d])
      else delete_loop has_limit before_date batch_size
             (delete_pass has_limit before_date batch_size d)
             (total_deleted + deleted_count has_limit before_date batch_size d)
             (logged @ [deleted_count has_limit before_date batch_size d]))"

definition delete_old_events ::
  "bool \<Rightarrow> db \<Rightarrow> int \<Rightarrow> nat \<Rightarrow> (db \<times> nat \<times> nat list) option" where
  "delete_old_events has_limit d before_date batch_size =
     delete_loop has_limit before_date batch_size d 0 []"

text \<open>
  \<^verbatim>\<open>timedelta(days=n)\<close> raises \<^verbatim>\<open>OverflowError\<close> when \<open>n\<close> has a magnitude above 999999999
  days, and the subtraction of a \<^verbatim>\<open>timedelta\<close> from a \<^verbatim>\<open>datetime\<close> raises it when the result
  leaves the years 1 to 9999 (\<^verbatim>\<open>datetime.min\<close>, \<^verbatim>\<open>datetime.max\<close>, here in microseconds from
  the epoch).
\<close>

definition timedelta_days :: "int \<Rightarrow> py_error + int" where
  "timedelta_days n = (if 999999999 < \<bar>n\<bar> then Inl OverflowError else Inr (days n))"

definition datetime_min :: int where
  "datetime_min = - 62135596800000000"

definition datetime_max :: int where
  "datetime_max = 253402300799999999"

definition datetime_sub :: "int \<Rightarrow> int \<Rightarrow> py_error + int" where
  "datetime_sub t delta =
     (if t - delta < datetime_min \<or> datetime_max < t - delta then Inl OverflowError
      else Inr (t - delta))"

text \<open>
  \<^verbatim>\<open>cleanup_old_events\<close>: the cutoff is now minus the retention days (the setting when
  none is given); the batch size is the default of \<^verbatim>\<open>delete_old_events\<close>, 1000. An
  exception of the date arithmetic is raised before the store is touched.
\<close>

definition cleanup_old_events ::
  "bool \<Rightarrow> settings \<Rightarrow> int \<Rightarrow> db \<Rightarrow> int option
     \<Rightarrow> (py_error + (db \<times> nat \<times> nat list)) option" where
  "cleanup_old_events has_limit cfg now d retention_days =
     (let retention = (case retention_days of None \<Rightarrow> event_retention_days cfg | Some r \<Rightarrow> r)
      in case timedelta_days retention of
           Inl e \<Rightarrow> Some (Inl e)
         | Inr delta \<Rightarrow>
             (case datetime_sub now delta of
                Inl e \<Rightarrow> Some (Inl e)
              | Inr cutoff_date \<Rightarrow>
                  map_option Inr (delete_old_events has_limit d cutoff_date 1000)))"

section \<open>Stale-session reaper (services/background_service.py)\<close>

text \<open>
  The loop of \<^verbatim>\<open>_close_stale_sessions\<close> over the active sessions fetched before it:
  \<^verbatim>\<open>sess.start_time < cutoff_time\<close> is Python's comparison and may raise.
\<close>

fun close_stale_loop :: "db \<Rightarrow> datetime \<Rightarrow> session list \<Rightarrow> nat \<Rightarrow> db \<times> (py_error + nat)" where
  "close_stale_loop d cutoff_time [] closed_count = (d, Inr closed_count)"
| "close_stale_loop d cutoff_time (sess # rest) closed_count =
     (case dt_less (sess_start_time sess) cutoff_time of
        Inl e \<Rightarrow> (d, Inl e)
      | Inr True \<Rightarrow>
          close_stale_loop
            (end_session d (sess_session_id sess) (dt_add (sess_start_time sess) (hours 24)))
            cutoff_time rest (closed_count + 1)
      | Inr False \<Rightarrow> close_stale_loop d cutoff_time rest closed_count)"

text \<open>
  \<^verbatim>\<open>_close_stale_sessions\<close> at the aware instant \<open>now\<close>. After the loop the session is
  committed and \<^verbatim>\<open>closed_count\<close> logged; an exception leaves the \<^verbatim>\<open>async with\<close> block, which
  rolls back, and is logged by the \<^verbatim>\<open>except\<close> (the result \<open>None\<close>).
\<close>

definition close_stale_sessions :: "int \<Rightarrow> db \<Rightarrow> db \<times> nat option" where
  "close_stale_sessions now d =
     (let active_sessions = get_active_sessions d;
          cutoff_time = Aware (now - hours 24) 0
      in case close_stale_loop d cutoff_time active_sessions 0 of
           (d', Inr closed_count) \<Rightarrow> (commit d', Some closed_count)
         | (d', Inl e) \<Rightarrow> (rollback d', None))"

section \<open>Live feed (api/dashboard.py)\<close>

text \<open>
  The select of \<^verbatim>\<open>get_events_since\<close>: when a watermark is given it is made timezone-aware
  and only later rows are selected, by the wall clock that the default store binds and
  compares; newest first; at most \<open>cap\<close> rows (the parameter \<^verbatim>\<open>limit\<close>).
\<close>

definition select_events_since :: "db \<Rightarrow> datetime option \<Rightarrow> nat \<Rightarrow> audit_event list" where
  "select_events_since d since_timestamp cap =
     (let rows = (case since_timestamp of
                    None \<Rightarrow> events (pending d)
                  | Some since \<Rightarrow>
                      filter (\<lambda>e. timestamp e > wall_clock (ensure_timezone_aware since))
                        (events (pending d)))
      in take cap (rev (sort_key timestamp rows)))"

text \<open>
  \<^verbatim>\<open>_get_model_info_map\<close>: its set comprehension reads \<^verbatim>\<open>e.model_id\<close> of each event. The
  class \<^verbatim>\<open>AuditEvent\<close> of models/database.py declares no \<^verbatim>\<open>model_id\<close>, so the read raises
  \<^verbatim>\<open>AttributeError\<close> on the first event; for no event the map is empty and nothing more
  is read.
\<close>

fun get_model_info_map :: "audit_event list \<Rightarrow> py_error + unit" where
  "get_model_info_map [] = Inr ()"
| "get_model_info_map (e # es) = Inl AttributeError"

text \<open>
  \<^verbatim>\<open>_serialize_event\<close>: its first statement reads \<^verbatim>\<open>event.model_id\<close> and raises likewise,
  before the dict is built. Of that dict the feed logic reads the id and the
  timestamp, the ISO text of the timezone-aware value.
\<close>

record event_dict =
  dict_event_id :: nat
  dict_timestamp :: datetime

definition serialize_event :: "audit_event \<Rightarrow> py_error + event_dict" where
  "serialize_event e = Inl AttributeError"

fun serialize_events :: "audit_event list \<Rightarrow> py_error + event_dict list" where
  "serialize_events [] = Inr []"
| "serialize_events (e # es) =
     (case serialize_event e of
        Inl x \<Rightarrow> Inl x
      | Inr v \<Rightarrow> (case serialize_events es of Inl x \<Rightarrow> Inl x | Inr vs \<Rightarrow> Inr (v # vs)))"

text \<open>\<^verbatim>\<open>get_events_since\<close>: the select, the model map, the list of the serialised events.\<close>

definition get_events_since :: "db \<Rightarrow> datetime option \<Rightarrow> nat \<Rightarrow> py_error + event_dict list" where
  "get_events_since d since_timestamp cap =
     (let selected = select_events_since d since_timestamp cap
      in case get_model_info_map selected of
           Inl x \<Rightarrow> Inl x
         | Inr model_name_map \<Rightarrow> serialize_events selected)"

text \<open>
  \<^verbatim>\<open>get_metrics_data\<close>: after the counts over the events it reads
  \<^verbatim>\<open>RegisteredModel.model_name\<close>. api/dashboard.py takes the name \<^verbatim>\<open>RegisteredModel\<close> from
  models/database.py, which defines no such class, so the name is not bound and the
  read raises.
\<close>

definition get_metrics_data :: "db \<Rightarrow> py_error + unit" where
  "get_metrics_data d = Inl NameError"

text \<open>
  \<^verbatim>\<open>websocket_endpoint\<close>. A push records the watermark before it, the events sent and the
  watermark stored after it. The initial push is made after the first selection and the
  metrics; a poll pushes only when it found events, after it has stored the new
  watermark and fetched the metrics. An exception leaves the loop for the \<^verbatim>\<open>except\<close>,
  which logs it and closes the connection: no further push. The list of stores is what
  the successive polls see until the client disconnects.
\<close>

record push =
  wm_before :: "datetime option"
  pushed :: "event_dict list"
  wm_after :: "datetime option"

fun ws_loop :: "datetime option \<Rightarrow> db list \<Rightarrow> push list" where
  "ws_loop last_sent_timestamp [] = []"
| "ws_loop last_sent_timestamp (d # ds) =
     (case get_events_since d last_sent_timestamp 50 of
        Inl x \<Rightarrow> []
      | Inr [] \<Rightarrow> ws_loop last_sent_timestamp ds
      | Inr (e # es) \<Rightarrow>
          (case get_metrics_data d of
             Inl x \<Rightarrow> []
           | Inr updated_metrics \<Rightarrow>
               \<lparr>wm_before = last_sent_timestamp, pushed = e # es,
                wm_after = Some (dict_timestamp e)\<rparr>
               # ws_loop (Some (dict_timestamp e)) ds))"

definition websocket_endpoint :: "db \<Rightarrow> db list \<Rightarrow> push list" where
  "websocket_endpoint d ds =
     (case get_events_since d None 50 of
        Inl x \<Rightarrow> []
      | Inr initial_events \<Rightarrow>
          (case get_metrics_data d of
             Inl x \<Rightarrow> []
           | Inr initial_metrics \<Rightarrow>
               (let last_sent_timestamp =
                      (case initial_events of
                         [] \<Rightarrow> None
                       | e # es \<Rightarrow> Some (dict_timestamp e))
                in \<lparr>wm_before = None, pushed = initial_events,
                    wm_after = last_sent_timestamp\<rparr>
                   # ws_loop last_sent_timestamp ds)))"

section \<open>The aggregate as the specification words it\<close>

text \<open>
  For one session id: the earliest timestamp among the batch's events of that id, the
  user and machine name of the last of them, and their number.
\<close>

definition spec_session_aggregate ::
  "audit_event_create list \<Rightarrow> string \<Rightarrow> (string option \<times> string option \<times> int) \<times> int" where
  "spec_session_aggregate evs sid =
     (let es = filter (\<lambda>e. session_id e = Some sid) evs
      in ((user_name (last es), machine_name (last es), Min (set (map timestamp es))),
          int (length es)))"

text \<open>What \<^verbatim>\<open>_update_sessions\<close> passes to the upsert and to the increment for that id.\<close>

definition session_aggregate ::
  "audit_event_create list \<Rightarrow> string \<Rightarrow> ((string option \<times> string option \<times> int) \<times> int) option" where
  "session_aggregate evs sid =
     map_option (\<lambda>v. (v, session_event_count evs sid)) (map_of (collect_session_data evs) sid)"

section \<open>Reading a session, and upserts within one session\<close>

text \<open>\<^verbatim>\<open>SessionRepository.get_by_id\<close>: the select by primary key.\<close>

definition session_get_by_id :: "db \<Rightarrow> string \<Rightarrow> session option" where
  "session_get_by_id d sid = find (\<lambda>s. sess_session_id s = sid) (sessions (pending d))"

text \<open>
  Successive calls of \<^verbatim>\<open>upsert_session\<close> for one id within one \<^verbatim>\<open>AsyncSession\<close>, each with
  its user, machine and start: the session keeps handing back the row object as the
  call before left it.
\<close>

definition upsert_session_calls ::
  "db \<Rightarrow> string \<Rightarrow> (string option \<times> string option \<times> datetime) list \<Rightarrow> db" where
  "upsert_session_calls d sid calls =
     foldl (\<lambda>d' (user, machine, start_time). upsert_session d' sid user machine start_time) d calls"

section \<open>Measures of a batch and of the session table\<close>

text \<open>\<^verbatim>\<open>if event.session_id\<close>: the id is there and not the empty string.\<close>

definition carries_session_id :: "audit_event_create \<Rightarrow> bool" where
  "carries_session_id e = (case session_id e of None \<Rightarrow> False | Some sid \<Rightarrow> sid \<noteq> [])"

definition total_event_count :: "tables \<Rightarrow> int" where
  "total_event_count t = sum_list (map sess_event_count (sessions t))"

text \<open>
  The first event of a list that none of the list precedes in time: the earliest one,
  and among several earliest the first in the batch's order.
\<close>

definition first_earliest :: "audit_event_create list \<Rightarrow> audit_event_create option" where
  "first_earliest es = find (\<lambda>e. \<forall>x \<in> set es. timestamp e \<le> timestamp x) es"

text \<open>
  The row of a session after \<^verbatim>\<open>upsert_session\<close> with user \<open>u\<close>, machine \<open>m\<close> and the aware
  start \<open>t\<close>, followed by \<^verbatim>\<open>increment_event_count\<close> by \<open>c\<close>, given the row before (if any).
\<close>

definition session_written ::
  "string \<Rightarrow> string option \<Rightarrow> string option \<Rightarrow> int \<Rightarrow> int \<Rightarrow> session option \<Rightarrow> session" where
  "session_written sid u m t c before =
     (case before of
        None \<Rightarrow> \<lparr>sess_session_id = sid, sess_user_name = u, sess_machine_name = m,
                  sess_start_time = Aware t 0, sess_end_time = None, sess_event_count = c\<rparr>
      | Some s \<Rightarrow> (upsert_existing u m (Aware t 0) s)
                    \<lparr>sess_event_count := sess_event_count s + c\<rparr>)"

section \<open>The store after a complete cleanup\<close>

text \<open>
  The store with every event older than the date removed from the open transaction
  and that transaction committed; and the number of events older than the date.
\<close>

definition purged :: "int \<Rightarrow> db \<Rightarrow> db" where
  "purged before_date d =
     commit (d\<lparr>pending := (pending d)\<lparr>events :=
        filter (\<lambda>e. \<not> timestamp e < before_date) (events (pending d))\<rparr>\<rparr>)"

definition old_rows :: "int \<Rightarrow> db \<Rightarrow> nat" where
  "old_rows before_date d = length (filter (\<lambda>e. timestamp e < before_date) (events (pending d)))"

section \<open>A session row after the reaper\<close>

text \<open>
  At the aware instant \<open>now\<close>: an active row that started more than 24 hours earlier
  gets its start plus 24 hours as end; any other row stays as it is.
\<close>

definition is_stale :: "int \<Rightarrow> session \<Rightarrow> bool" where
  "is_stale now s \<longleftrightarrow> sess_end_time s = None \<and> instant (sess_start_time s) < now - hours 24"

definition close_if_stale :: "int \<Rightarrow> session \<Rightarrow> session" where
  "close_if_stale now s =
     (if is_stale now s
      then s\<lparr>sess_end_time := Some (dt_add (sess_start_time s) (hours 24))\<rparr>
      else s)"

text \<open>One closing step of the reaper's loop, and the row it closes.\<close>

definition end_step :: "db \<Rightarrow> session \<Rightarrow> db" where
  "end_step d a = end_session d (sess_session_id a) (dt_add (sess_start_time a) (hours 24))"

definition closed_row :: "session \<Rightarrow> session" where
  "closed_row s = s\<lparr>sess_end_time := Some (dt_add (sess_start_time s) (hours 24))\<rparr>"

section \<open>Sample data\<close>

text \<open>
  The event of the fixture \<^verbatim>\<open>sample_event\<close> of tests/test_events.py, with the id, the
  timestamp, the user and the session left open.
\<close>

definition sample_event :: "nat \<Rightarrow> int \<Rightarrow> string option \<Rightarrow> string option \<Rightarrow> audit_event_create" where
  "sample_event eid ts user sid =
     \<lparr>event_id = eid, timestamp = ts, event_type = CELL_CHANGE,
      user_name = user, machine_name = Some ''TEST-PC'',
      user_domain = None, session_id = sid,
      workbook_name = Some ''TestWorkbook.xlsx'', workbook_path = None,
      sheet_name = Some ''Sheet1'', cell_address = Some ''$A$1'',
      cell_count = Some 1, old_value = None, new_value = Some ''100'',
      formula = None, details = None, error_message = None,
      correlation_id = None\<rparr>"

definition empty_db :: db where
  "empty_db = \<lparr>committed = \<lparr>events = [], sessions = []\<rparr>,
               pending = \<lparr>events = [], sessions = []\<rparr>, server_now = 0\<rparr>"

text \<open>A session row with no actor and no events, and a store with no open changes.\<close>

definition sample_session :: "string \<Rightarrow> datetime \<Rightarrow> datetime option \<Rightarrow> session" where
  "sample_session sid started ended =
     \<lparr>sess_session_id = sid, sess_user_name = None, sess_machine_name = None,
      sess_start_time = started, sess_end_time = ended, sess_event_count = 0\<rparr>"

definition db_of :: "audit_event list \<Rightarrow> session list \<Rightarrow> db" where
  "db_of evs rows =
     \<lparr>committed = \<lparr>events = evs, sessions = rows\<rparr>,
      pending = \<lparr>events = evs, sessions = rows\<rparr>, server_now = 0\<rparr>"

text \<open>A stored row made of the sample event.\<close>

definition sample_row :: "nat \<Rightarrow> int \<Rightarrow> audit_event" where
  "sample_row eid ts = to_row 0 (sample_event eid ts (Some ''test.user'') (Some ''test_session_123''))"

text \<open>\<open>n\<close> stored rows of the sample event, ids 0 to \<open>n - 1\<close>, all at the epoch.\<close>

definition old_events :: "nat \<Rightarrow> audit_event list" where
  "old_events n = map (\<lambda>i. sample_row i 0) [0..<n]"

section \<open>Ingestion: size limit and atomicity\<close>

lemma upsert_session_pending_only: "\<exists>p. upsert_session d sid u m t = d\<lparr>pending := p\<rparr>"
  by (auto simp: upsert_session_def Let_def split: option.splits)

lemma increment_event_count_pending_only: "\<exists>p. increment_event_count d sid n = d\<lparr>pending := p\<rparr>"
  by (auto simp: increment_event_count_def)

lemma upsert_and_count_pending_only: "\<exists>p. upsert_and_count evs d item = d\<lparr>pending := p\<rparr>"
proof -
  obtain sid u m t where item: "item = (sid, u, m, t)" by (cases item) auto
  obtain p where p: "upsert_session d sid u m (Aware t 0) = d\<lparr>pending := p\<rparr>"
    using upsert_session_pending_only by blast
  obtain p' where "increment_event_count (d\<lparr>pending := p\<rparr>) sid (session_event_count evs sid)
      = (d\<lparr>pending := p\<rparr>)\<lparr>pending := p'\<rparr>"
    using increment_event_count_pending_only by blast
  then show ?thesis by (auto simp: upsert_and_count_def item p)
qed

lemma foldl_upsert_pending_only: "\<exists>p. foldl (upsert_and_count evs) d items = d\<lparr>pending := p\<rparr>"
proof (induction items arbitrary: d)
  case Nil
  have "d = d\<lparr>pending := pending d\<rparr>" by simp
  then show ?case by (metis foldl_Nil)
next
  case (Cons a items)
  obtain p where p: "upsert_and_count evs d a = d\<lparr>pending := p\<rparr>"
    using upsert_and_count_pending_only by blast
  obtain p' where "foldl (upsert_and_count evs) (d\<lparr>pending := p\<rparr>) items = (d\<lparr>pending := p\<rparr>)\<lparr>pending := p'\<rparr>"
    using Cons.IH by blast
  then show ?case by (auto simp: p)
qed

text \<open>The session tracking writes to the open transaction only.\<close>

lemma update_sessions_pending_only: "\<exists>p. update_sessions d evs = d\<lparr>pending := p\<rparr>"
  unfolding update_sessions_def by (rule foldl_upsert_pending_only)

lemma rollback_update_sessions: "rollback (update_sessions d evs) = rollback d"
proof -
  obtain p where "update_sessions d evs = d\<lparr>pending := p\<rparr>"
    using update_sessions_pending_only by blast
  then show ?thesis by (simp add: rollback_def)
qed

lemma bulk_create_fails: "snd (bulk_create d evs n) = Inl e \<Longrightarrow> fst (bulk_create d evs n) = rollback d"
  by (auto simp: bulk_create_def split: if_splits sum.splits)

text \<open>
  C1. A batch longer than \<^verbatim>\<open>max_batch_size\<close> is answered with no event accepted, all of
  them rejected and a non-empty error list, and the store, committed and pending, is
  the one the call started with: no event row and no session row is written.
\<close>

theorem ingest_batch_oversized:
  assumes "int (length evs) > max_batch_size cfg"
  shows "accepted (fst (ingest_batch cfg t0 t1 d evs track)) = 0
       \<and> rejected (fst (ingest_batch cfg t0 t1 d evs track)) = length evs
       \<and> errors (fst (ingest_batch cfg t0 t1 d evs track)) \<noteq> []
       \<and> snd (ingest_batch cfg t0 t1 d evs track) = d"
  using assms by (simp add: ingest_batch_def)

theorem ingest_batch_oversized_witness:
  "accepted (fst (ingest_batch \<lparr>max_batch_size = 1, event_retention_days = 90\<rparr> 0 0 empty_db
       [sample_event 1 10 None None, sample_event 2 20 None None] True)) = 0
   \<and> rejected (fst (ingest_batch \<lparr>max_batch_size = 1, event_retention_days = 90\<rparr> 0 0 empty_db
       [sample_event 1 10 None None, sample_event 2 20 None None] True)) = 2
   \<and> snd (ingest_batch \<lparr>max_batch_size = 1, event_retention_days = 90\<rparr> 0 0 empty_db
       [sample_event 1 10 None None, sample_event 2 20 None None] True) = empty_db"
  using ingest_batch_oversized [of "\<lparr>max_batch_size = 1, event_retention_days = 90\<rparr>"
      "[sample_event 1 10 None None, sample_event 2 20 None None]" 0 0 empty_db True]
  by simp

text \<open>
  C2. When the batch is admitted and the persistence of its events raises, the answer
  is no event accepted, all rejected and the text of that exception as the one error,
  and the store is the rolled-back one: the pending tables are the committed tables of
  the start, so neither an event row nor a session upsert of this call remains.
\<close>

theorem ingest_batch_persistence_failure:
  assumes "\<not> int (length evs) > max_batch_size cfg"
      and "snd (bulk_create (if track then update_sessions d evs else d) evs (max_batch_size cfg)) = Inl e"
  shows "ingest_batch cfg t0 t1 d evs track =
           (\<lparr>accepted = 0, rejected = length evs, errors = [Exception_text e],
             processing_time_ms = of_int (t1 - t0) / 1000\<rparr>, rollback d)"
proof -
  let ?d1 = "if track then update_sessions d evs else d"
  have "fst (bulk_create ?d1 evs (max_batch_size cfg)) = rollback ?d1"
    using assms(2) by (rule bulk_create_fails)
  moreover have "rollback ?d1 = rollback d"
    by (simp add: rollback_update_sessions)
  ultimately have "bulk_create ?d1 evs (max_batch_size cfg) = (rollback d, Inl e)"
    using assms(2) by (metis prod.collapse)
  then show ?thesis
    using assms(1) by (simp add: ingest_batch_def Let_def)
qed

theorem ingest_batch_persistence_failure_witness:
  "\<not> int (length [sample_event 1 10 (Some ''alice'') (Some ''s1''),
                     sample_event 1 20 (Some ''bob'') (Some ''s1'')]) > 10
   \<and> snd (bulk_create (update_sessions empty_db
             [sample_event 1 10 (Some ''alice'') (Some ''s1''),
              sample_event 1 20 (Some ''bob'') (Some ''s1'')])
           [sample_event 1 10 (Some ''alice'') (Some ''s1''),
            sample_event 1 20 (Some ''bob'') (Some ''s1'')] 10) = Inl IntegrityError
   \<and> ingest_batch \<lparr>max_batch_size = 10, event_retention_days = 90\<rparr> 0 0 empty_db
         [sample_event 1 10 (Some ''alice'') (Some ''s1''),
          sample_event 1 20 (Some ''bob'') (Some ''s1'')] True =
       (\<lparr>accepted = 0, rejected = 2, errors = [Exception_text IntegrityError],
         processing_time_ms = 0\<rparr>, empty_db)"
proof -
  let ?evs = "[sample_event 1 10 (Some ''alice'') (Some ''s1''),
               sample_event 1 20 (Some ''bob'') (Some ''s1'')]"
  have h1: "\<not> int (length ?evs) > max_batch_size \<lparr>max_batch_size = 10, event_retention_days = 90\<rparr>"
    by simp
  have h2: "snd (bulk_create (if True then update_sessions empty_db ?evs else empty_db) ?evs
               (max_batch_size \<lparr>max_batch_size = 10, event_retention_days = 90\<rparr>)) = Inl IntegrityError"
    by (simp add: bulk_create_def bulk_create_try_def chunked.simps flush_events_def
          to_row_def sample_event_def)
  have h3: "rollback empty_db = empty_db"
    by (simp add: rollback_def empty_db_def)
  show ?thesis
    using h1 h2 ingest_batch_persistence_failure [OF h1 h2, of 0 0] h3 by simp
qed

section \<open>Session start time under upserts\<close>

lemma instant_ensure [simp]: "instant (ensure_timezone_aware t) = instant t"
  by (cases t) auto

text \<open>On two normalised values Python's comparison does not raise and compares instants.\<close>

lemma dt_less_ensure:
  "dt_less (ensure_timezone_aware a) (ensure_timezone_aware b) = Inr (instant a < instant b)"
  by (cases a; cases b) auto

text \<open>Without the normalisation a stored naive start and an aware new start do not compare.\<close>

lemma dt_less_not_normalised: "dt_less (Aware a off) (Naive b) = Inl TypeError"
  by simp

lemma find_map_key:
  assumes "\<And>s. sess_session_id (f s) = sess_session_id s"
  shows "find (\<lambda>s. sess_session_id s = sid) (map f rows)
       = map_option f (find (\<lambda>s. sess_session_id s = sid) rows)"
  using assms by (induction rows) auto

lemma find_snoc:
  "find P (xs @ [y]) = (case find P xs of Some x \<Rightarrow> Some x | None \<Rightarrow> if P y then Some y else None)"
  by (induction xs) auto

lemma upsert_existing_id [simp]: "sess_session_id (upsert_existing u m t s) = sess_session_id s"
  by (simp add: upsert_existing_def Let_def)

lemma upsert_existing_count [simp]:
  "sess_event_count (upsert_existing u m t s) = sess_event_count s"
  by (simp add: upsert_existing_def Let_def)

lemma upsert_existing_start:
  "instant (sess_start_time (upsert_existing u m t s)) = min (instant (sess_start_time s)) (instant t)"
  by (simp add: upsert_existing_def Let_def dt_less_ensure min_def)

lemma upsert_session_get_same:
  assumes "session_get_by_id d sid = Some s"
  shows "session_get_by_id (upsert_session d sid u m t) sid = Some (upsert_existing u m t s)"
proof -
  let ?f = "\<lambda>r. if sess_session_id r = sid then upsert_existing u m t r else r"
  have key: "\<And>r. sess_session_id (?f r) = sess_session_id r" by simp
  have sid: "sess_session_id s = sid"
    using assms unfolding session_get_by_id_def by (auto simp: find_Some_iff)
  have "session_get_by_id (upsert_session d sid u m t) sid
      = find (\<lambda>r. sess_session_id r = sid) (map ?f (sessions (pending d)))"
    using assms by (simp add: upsert_session_def session_get_by_id_def Let_def)
  also have "\<dots> = map_option ?f (find (\<lambda>r. sess_session_id r = sid) (sessions (pending d)))"
    using key by (rule find_map_key)
  also have "\<dots> = Some (upsert_existing u m t s)"
    using assms sid by (simp add: session_get_by_id_def)
  finally show ?thesis .
qed

lemma upsert_session_calls_get:
  assumes "session_get_by_id d sid = Some s"
  shows "\<exists>s'. session_get_by_id (upsert_session_calls d sid calls) sid = Some s'
            \<and> instant (sess_start_time s')
               = Min (insert (instant (sess_start_time s))
                        (set (map (\<lambda>(user, machine, start_time). instant start_time) calls)))"
  using assms
proof (induction calls arbitrary: d s)
  case Nil
  then show ?case by (simp add: upsert_session_calls_def)
next
  case (Cons c calls)
  obtain u m t where c: "c = (u, m, t)" by (cases c) auto
  let ?d = "upsert_session d sid u m t"
  let ?s = "upsert_existing u m t s"
  have g: "session_get_by_id ?d sid = Some ?s"
    using Cons.prems by (rule upsert_session_get_same)
  from Cons.IH [OF g] obtain s' where
    s': "session_get_by_id (upsert_session_calls ?d sid calls) sid = Some s'"
    and m: "instant (sess_start_time s')
          = Min (insert (instant (sess_start_time ?s))
                   (set (map (\<lambda>(user, machine, start_time). instant start_time) calls)))"
    by blast
  have unf: "upsert_session_calls d sid (c # calls) = upsert_session_calls ?d sid calls"
    by (simp add: upsert_session_calls_def c)
  let ?T = "set (map (\<lambda>(user, machine, start_time). instant start_time) calls)"
  have "Min (insert (min (instant (sess_start_time s)) (instant t)) ?T)
      = Min (insert (instant (sess_start_time s)) (insert (instant t) ?T))"
    by (cases "?T = {}") (auto simp: min.assoc)
  then have "instant (sess_start_time s')
      = Min (insert (instant (sess_start_time s))
                        (set (map (\<lambda>(user, machine, start_time). instant start_time) (c # calls))))"
    using m by (simp add: upsert_existing_start c)
  then show ?case using s' unf by auto
qed

text \<open>
  Within one \<^verbatim>\<open>AsyncSession\<close> the row object keeps the value assigned: one upsert leaves
  a start whose instant is the minimum of the two normalised starts, and a sequence of
  upserts the minimum of all of them.
\<close>

lemma upsert_session_start_in_one_session:
  assumes "session_get_by_id d sid = Some s"
  shows "(\<exists>s'. session_get_by_id (upsert_session d sid user machine new_start) sid = Some s'
            \<and> instant (ensure_timezone_aware (sess_start_time s'))
               = min (instant (ensure_timezone_aware (sess_start_time s)))
                     (instant (ensure_timezone_aware new_start)))
       \<and> (\<exists>s'. session_get_by_id (upsert_session_calls d sid calls) sid = Some s'
            \<and> instant (ensure_timezone_aware (sess_start_time s'))
               = Min (insert (instant (ensure_timezone_aware (sess_start_time s)))
                        (set (map (\<lambda>(u, m, t). instant (ensure_timezone_aware t)) calls)))
            \<and> instant (ensure_timezone_aware (sess_start_time s'))
               \<le> instant (ensure_timezone_aware (sess_start_time s)))"
proof -
  have one: "session_get_by_id (upsert_session d sid user machine new_start) sid
           = Some (upsert_existing user machine new_start s)"
    using assms by (rule upsert_session_get_same)
  obtain s' where s': "session_get_by_id (upsert_session_calls d sid calls) sid = Some s'"
    and m: "instant (sess_start_time s')
          = Min (insert (instant (sess_start_time s))
                   (set (map (\<lambda>(user, machine, start_time). instant start_time) calls)))"
    using upsert_session_calls_get [OF assms] by blast
  have le: "instant (sess_start_time s') \<le> instant (sess_start_time s)"
    unfolding m by (rule Min_le) auto
  show ?thesis
    using one s' m le by (simp add: upsert_existing_start)
qed

text \<open>
  C5 fails on the code. The default store holds session \<open>s1\<close> with start 11:00, read
  back naive. An upsert for \<open>s1\<close> with the start 12:00+02:00, which is 10:00 UTC, finds
  the normalised stored start later and assigns the new start, the minimum. Committed,
  the store keeps the wall clock 12:00 of that value, and the next session reads the
  start 12:00, naive, to be read as UTC: the stored start has moved one hour later,
  where the claim has it never increase.
\<close>

theorem upsert_session_start_later_on_sqlite:
  "session_get_by_id (db_of [] [sample_session ''s1'' (Naive (hours 11)) None]) ''s1''
     = Some (sample_session ''s1'' (Naive (hours 11)) None)
   \<and> session_get_by_id
        (upsert_session (db_of [] [sample_session ''s1'' (Naive (hours 11)) None]) ''s1''
           None None (Aware (hours 10) (hours 2))) ''s1''
     = Some (sample_session ''s1'' (Aware (hours 10) (hours 2)) None)
   \<and> session_get_by_id
        (next_session_sqlite (commit
           (upsert_session (db_of [] [sample_session ''s1'' (Naive (hours 11)) None]) ''s1''
              None None (Aware (hours 10) (hours 2))))) ''s1''
     = Some (sample_session ''s1'' (Naive (hours 12)) None)
   \<and> instant (ensure_timezone_aware (Naive (hours 11)))
       < instant (ensure_timezone_aware (Naive (hours 12)))"
  by (simp add: session_get_by_id_def upsert_session_def upsert_existing_def
      next_session_sqlite_def sqlite_session_row_def sqlite_read_back_def commit_def
      db_of_def sample_session_def hours_def Let_def)

section \<open>Session aggregates of a batch\<close>

lemma collect_session_data_snoc:
  "collect_session_data (evs @ [e]) = session_data_step (collect_session_data evs) e"
  by (simp add: collect_session_data_def)

lemma first_earliest_None: "first_earliest es = None \<Longrightarrow> es = []"
proof (rule ccontr)
  assume none: "first_earliest es = None" and ne: "es \<noteq> []"
  have "Min (timestamp ` set es) \<in> timestamp ` set es"
    using ne by (intro Min_in) auto
  then obtain x where x: "x \<in> set es" "timestamp x = Min (timestamp ` set es)" by auto
  have "\<forall>y \<in> set es. timestamp x \<le> timestamp y"
    using x(2) by simp
  with x(1) none show False
    by (auto simp: first_earliest_def find_None_iff)
qed

lemma first_earliest_Some:
  assumes "first_earliest es = Some x"
  shows "x \<in> set es" and "\<And>y. y \<in> set es \<Longrightarrow> timestamp x \<le> timestamp y"
  using assms unfolding first_earliest_def find_Some_iff by auto

lemma first_earliest_snoc_later:
  assumes "first_earliest es = Some x" and "timestamp x \<le> timestamp e"
  shows "first_earliest (es @ [e]) = Some x"
proof -
  have "find (\<lambda>a. \<forall>y \<in> set (es @ [e]). timestamp a \<le> timestamp y) es
      = find (\<lambda>a. \<forall>y \<in> set es. timestamp a \<le> timestamp y) es"
  proof (rule find_cong [OF refl])
    fix a assume "a \<in> set es"
    show "(\<forall>y \<in> set (es @ [e]). timestamp a \<le> timestamp y)
        = (\<forall>y \<in> set es. timestamp a \<le> timestamp y)"
      using first_earliest_Some(1) [OF assms(1)] assms(2) by fastforce
  qed
  then show ?thesis
    using assms(1) by (simp add: first_earliest_def find_snoc)
qed

lemma first_earliest_snoc_earlier:
  assumes "first_earliest es = Some x" and "timestamp e < timestamp x"
  shows "first_earliest (es @ [e]) = Some e"
proof -
  have le: "\<And>y. y \<in> set es \<Longrightarrow> timestamp x \<le> timestamp y"
    using first_earliest_Some(2) [OF assms(1)] .
  have "find (\<lambda>a. \<forall>y \<in> set (es @ [e]). timestamp a \<le> timestamp y) es = None"
    unfolding find_None_iff using le assms(2) by fastforce
  moreover have "\<forall>y \<in> set (es @ [e]). timestamp e \<le> timestamp y"
    using le assms(2) by fastforce
  ultimately show ?thesis
    by (simp add: first_earliest_def find_snoc)
qed


lemma collect_session_data_entry:
  "sid \<noteq> [] \<Longrightarrow>
   map_of (collect_session_data evs) sid
     = map_option (\<lambda>e. (user_name e, machine_name e, timestamp e))
         (first_earliest (filter (\<lambda>e. session_id e = Some sid) evs))"
proof (induction evs arbitrary: sid rule: rev_induct)
  case Nil
  then show ?case by (simp add: collect_session_data_def first_earliest_def)
next
  case (snoc e evs)
  let ?sd = "collect_session_data evs"
  let ?es = "filter (\<lambda>e. session_id e = Some sid) evs"
  note IH = snoc.IH [OF snoc.prems]
  show ?case
  proof (cases "session_id e = Some sid")
    case False
    then have "map_of (session_data_step ?sd e) sid = map_of ?sd sid"
      by (auto simp: session_data_step_def AList.update_conv' split: option.splits)
    then show ?thesis
      using False IH by (simp add: collect_session_data_snoc)
  next
    case True
    show ?thesis
    proof (cases "map_of ?sd sid")
      case None
      then have "?es = []"
        using IH first_earliest_None by fastforce
      moreover have "map_of (session_data_step ?sd e) sid
          = Some (user_name e, machine_name e, timestamp e)"
        using True None snoc.prems
        by (simp add: session_data_step_def AList.update_conv')
      ultimately show ?thesis
        using True by (simp add: collect_session_data_snoc first_earliest_def)
    next
      case (Some v)
      obtain u m t where v: "v = (u, m, t)" by (cases v) auto
      obtain x where x: "first_earliest ?es = Some x"
        and xv: "(user_name x, machine_name x, timestamp x) = (u, m, t)"
        using IH Some v by (cases "first_earliest ?es") auto
      show ?thesis
      proof (cases "timestamp e < t")
        case less: True
        have "map_of (session_data_step ?sd e) sid
            = Some (user_name e, machine_name e, timestamp e)"
          using True Some v less snoc.prems
          by (simp add: session_data_step_def AList.update_conv')
        moreover have "first_earliest (?es @ [e]) = Some e"
          using x less xv by (intro first_earliest_snoc_earlier) auto
        ultimately show ?thesis
          using True by (simp add: collect_session_data_snoc)
      next
        case ge: False
        have "map_of (session_data_step ?sd e) sid = Some (u, m, t)"
          using True Some v ge snoc.prems
          by (simp add: session_data_step_def)
        moreover have "first_earliest (?es @ [e]) = Some x"
          using x ge xv by (intro first_earliest_snoc_later) auto
        ultimately show ?thesis
          using True xv by (simp add: collect_session_data_snoc)
      qed
    qed
  qed
qed

lemma collect_session_data_empty_id: "map_of (collect_session_data evs) [] = None"
proof (induction evs rule: rev_induct)
  case Nil
  then show ?case by (simp add: collect_session_data_def)
next
  case (snoc e evs)
  then show ?case
    by (auto simp: collect_session_data_snoc session_data_step_def AList.update_conv'
        split: option.splits)
qed

lemma first_earliest_Min:
  assumes "es \<noteq> []"
  shows "\<exists>x. first_earliest es = Some x \<and> timestamp x = Min (set (map timestamp es))"
proof -
  obtain x where x: "first_earliest es = Some x"
    using assms first_earliest_None by (cases "first_earliest es") auto
  have "Min (timestamp ` set es) = timestamp x"
    using first_earliest_Some [OF x] by (intro Min_eqI) auto
  then show ?thesis using x by simp
qed


lemma session_data_step_distinct:
  "distinct (map fst sd) \<Longrightarrow> distinct (map fst (session_data_step sd e))"
  by (auto simp: session_data_step_def AList.distinct_update split: option.splits)

lemma collect_session_data_distinct: "distinct (map fst (collect_session_data evs))"
proof (induction evs rule: rev_induct)
  case Nil
  then show ?case by (simp add: collect_session_data_def)
next
  case (snoc e evs)
  then show ?case
    by (simp add: collect_session_data_snoc session_data_step_distinct)
qed

lemma session_get_by_id_Some_id:
  "session_get_by_id d sid = Some s \<Longrightarrow> sess_session_id s = sid"
  unfolding session_get_by_id_def by (auto simp: find_Some_iff)

lemma get_after_increment:
  "session_get_by_id (increment_event_count d k n) sid
     = map_option (\<lambda>s. if k = sid then s\<lparr>sess_event_count := sess_event_count s + n\<rparr> else s)
         (session_get_by_id d sid)"
proof -
  let ?f = "\<lambda>s. if sess_session_id s = k
                 then s\<lparr>sess_event_count := sess_event_count s + n\<rparr> else s"
  have key: "\<And>r. sess_session_id (?f r) = sess_session_id r" by simp
  have "session_get_by_id (increment_event_count d k n) sid
      = map_option ?f (session_get_by_id d sid)"
    unfolding session_get_by_id_def increment_event_count_def
    using find_map_key [of ?f sid "sessions (pending d)", OF key] by simp
  also have "\<dots> = map_option (\<lambda>s. if k = sid then s\<lparr>sess_event_count := sess_event_count s + n\<rparr> else s)
         (session_get_by_id d sid)"
    by (cases "session_get_by_id d sid") (auto dest: session_get_by_id_Some_id)
  finally show ?thesis .
qed

lemma get_after_upsert_other:
  assumes "k \<noteq> sid"
  shows "session_get_by_id (upsert_session d k u m t) sid = session_get_by_id d sid"
proof (cases "find (\<lambda>s. sess_session_id s = k) (sessions (pending d))")
  case None
  then show ?thesis
    using assms by (simp add: upsert_session_def session_get_by_id_def Let_def find_snoc
        split: option.splits)
next
  case (Some existing)
  let ?f = "\<lambda>s. if sess_session_id s = k then upsert_existing u m t s else s"
  have key: "\<And>r. sess_session_id (?f r) = sess_session_id r" by simp
  have "session_get_by_id (upsert_session d k u m t) sid
      = map_option ?f (session_get_by_id d sid)"
    unfolding session_get_by_id_def
    using Some find_map_key [of ?f sid "sessions (pending d)", OF key]
    by (simp add: upsert_session_def Let_def)
  also have "\<dots> = session_get_by_id d sid"
    using assms by (cases "session_get_by_id d sid") (auto dest: session_get_by_id_Some_id)
  finally show ?thesis .
qed

lemma get_after_upsert_new:
  assumes "session_get_by_id d sid = None"
  shows "session_get_by_id (upsert_session d sid u m t) sid
       = Some \<lparr>sess_session_id = sid, sess_user_name = u, sess_machine_name = m,
                sess_start_time = ensure_timezone_aware t, sess_end_time = None,
                sess_event_count = 0\<rparr>"
  using assms by (simp add: upsert_session_def session_get_by_id_def Let_def find_snoc)

lemma get_after_upsert_and_count:
  "session_get_by_id (upsert_and_count evs d (k, u, m, t)) sid
     = (if k = sid
        then Some (session_written sid u m t (session_event_count evs sid) (session_get_by_id d sid))
        else session_get_by_id d sid)"
proof (cases "k = sid")
  case False
  then show ?thesis
    by (simp add: upsert_and_count_def get_after_increment get_after_upsert_other
        option.map_ident)
next
  case True
  show ?thesis
  proof (cases "session_get_by_id d sid")
    case None
    then show ?thesis
      using True
      by (simp add: upsert_and_count_def get_after_increment get_after_upsert_new
          session_written_def)
  next
    case (Some s)
    then show ?thesis
      using True
      by (simp add: upsert_and_count_def get_after_increment upsert_session_get_same
          session_written_def upsert_existing_def Let_def)
  qed
qed

lemma get_after_foldl_other:
  "sid \<notin> fst ` set items \<Longrightarrow>
   session_get_by_id (foldl (upsert_and_count evs) d items) sid = session_get_by_id d sid"
proof (induction items arbitrary: d)
  case Nil
  then show ?case by simp
next
  case (Cons item items)
  obtain k u m t where item: "item = (k, u, m, t)" by (cases item) auto
  have "k \<noteq> sid" using Cons.prems item by auto
  then show ?case
    using Cons item by (simp add: get_after_upsert_and_count)
qed

lemma get_after_foldl:
  assumes "distinct (map fst items)" and "map_of items sid = Some (u, m, t)"
  shows "session_get_by_id (foldl (upsert_and_count evs) d items) sid
       = Some (session_written sid u m t (session_event_count evs sid) (session_get_by_id d sid))"
  using assms
proof (induction items arbitrary: d)
  case Nil
  then show ?case by simp
next
  case (Cons item items)
  obtain k u' m' t' where item: "item = (k, u', m', t')" by (cases item) auto
  show ?case
  proof (cases "k = sid")
    case True
    then have same: "(u', m', t') = (u, m, t)"
      using Cons.prems(2) item by simp
    have "sid \<notin> fst ` set items"
      using Cons.prems(1) item True by auto
    then show ?thesis
      using item True same
      by (simp add: get_after_foldl_other get_after_upsert_and_count)
  next
    case False
    then have "map_of items sid = Some (u, m, t)"
      using Cons.prems(2) item by simp
    moreover have "distinct (map fst items)" using Cons.prems(1) by simp
    ultimately show ?thesis
      using Cons.IH item False by (simp add: get_after_upsert_and_count)
  qed
qed

text \<open>
  C3, as amended. For a non-empty session id that occurs in the batch, the aggregate
  that \<^verbatim>\<open>_update_sessions\<close> derives is: the user name, machine name and timestamp of the
  session's earliest event in the batch (the first in batch order among several
  earliest), that timestamp being the minimum over the session's events, and the
  number of the session's events. The session row after the call is the one an upsert
  with exactly these values and an increment by that number leave.
\<close>

theorem update_sessions_aggregate:
  assumes "sid \<noteq> []" and "filter (\<lambda>e. session_id e = Some sid) evs \<noteq> []"
  shows "\<exists>e. first_earliest (filter (\<lambda>e. session_id e = Some sid) evs) = Some e
           \<and> timestamp e = Min (set (map timestamp (filter (\<lambda>e. session_id e = Some sid) evs)))
           \<and> session_aggregate evs sid
               = Some ((user_name e, machine_name e, timestamp e),
                       int (length (filter (\<lambda>e. session_id e = Some sid) evs)))
           \<and> session_get_by_id (update_sessions d evs) sid
               = Some (session_written sid (user_name e) (machine_name e) (timestamp e)
                         (int (length (filter (\<lambda>e. session_id e = Some sid) evs)))
                         (session_get_by_id d sid))"
proof -
  let ?es = "filter (\<lambda>e. session_id e = Some sid) evs"
  obtain e where e: "first_earliest ?es = Some e"
    and mn: "timestamp e = Min (set (map timestamp ?es))"
    using first_earliest_Min [OF assms(2)] by blast
  have entry: "map_of (collect_session_data evs) sid
             = Some (user_name e, machine_name e, timestamp e)"
    using collect_session_data_entry [OF assms(1), of evs] e by simp
  have agg: "session_aggregate evs sid
           = Some ((user_name e, machine_name e, timestamp e), int (length ?es))"
    using entry by (simp add: session_aggregate_def session_event_count_def)
  have "session_get_by_id (update_sessions d evs) sid
      = Some (session_written sid (user_name e) (machine_name e) (timestamp e)
                (session_event_count evs sid) (session_get_by_id d sid))"
    unfolding update_sessions_def
    using collect_session_data_distinct entry by (rule get_after_foldl)
  then show ?thesis
    using e mn agg by (simp add: session_event_count_def)
qed


theorem update_sessions_aggregate_witness:
  "''s1'' \<noteq> []
   \<and> filter (\<lambda>e. session_id e = Some ''s1'')
        [sample_event 1 10 (Some ''alice'') (Some ''s1''),
         sample_event 2 20 (Some ''bob'') (Some ''s1'')] \<noteq> []
   \<and> session_aggregate
        [sample_event 1 10 (Some ''alice'') (Some ''s1''),
         sample_event 2 20 (Some ''bob'') (Some ''s1'')] ''s1''
       = Some ((Some ''alice'', Some ''TEST-PC'', 10), 2)
   \<and> session_get_by_id
        (update_sessions empty_db
           [sample_event 1 10 (Some ''alice'') (Some ''s1''),
            sample_event 2 20 (Some ''bob'') (Some ''s1'')]) ''s1''
       = Some \<lparr>sess_session_id = ''s1'', sess_user_name = Some ''alice'',
                sess_machine_name = Some ''TEST-PC'', sess_start_time = Aware 10 0,
                sess_end_time = None, sess_event_count = 2\<rparr>"
proof -
  let ?evs = "[sample_event 1 10 (Some ''alice'') (Some ''s1''),
               sample_event 2 20 (Some ''bob'') (Some ''s1'')]"
  have h1: "''s1'' \<noteq> []" by simp
  have h2: "filter (\<lambda>e. session_id e = Some ''s1'') ?evs \<noteq> []"
    by (simp add: sample_event_def)
  have fe: "first_earliest (filter (\<lambda>e. session_id e = Some ''s1'') ?evs)
          = Some (sample_event 1 10 (Some ''alice'') (Some ''s1''))"
    by (simp add: first_earliest_def sample_event_def)
  have g: "session_get_by_id empty_db ''s1'' = None"
    by (simp add: session_get_by_id_def empty_db_def)
  show ?thesis
    using h2 update_sessions_aggregate [OF h1 h2, of empty_db] fe g
    by (auto simp: session_written_def sample_event_def)
qed

text \<open>
  C3 as stated fails: in a batch of two events of session \<open>s1\<close>, the first by alice at
  10 and the second by bob at 20, the latest user seen is bob, and the code upserts
  alice. And an event whose session id is the empty string has a session id occurring
  in the batch for which no aggregate is derived.
\<close>

theorem session_aggregate_latest_user_counterexample:
  "session_aggregate
     [sample_event 1 10 (Some ''alice'') (Some ''s1''),
      sample_event 2 20 (Some ''bob'') (Some ''s1'')] ''s1''
     = Some ((Some ''alice'', Some ''TEST-PC'', 10), 2)
   \<and> spec_session_aggregate
       [sample_event 1 10 (Some ''alice'') (Some ''s1''),
        sample_event 2 20 (Some ''bob'') (Some ''s1'')] ''s1''
     = ((Some ''bob'', Some ''TEST-PC'', 10), 2)
   \<and> session_aggregate
       [sample_event 1 10 (Some ''alice'') (Some ''s1''),
        sample_event 2 20 (Some ''bob'') (Some ''s1'')] ''s1''
     \<noteq> Some (spec_session_aggregate
         [sample_event 1 10 (Some ''alice'') (Some ''s1''),
          sample_event 2 20 (Some ''bob'') (Some ''s1'')] ''s1'')
   \<and> session_aggregate [sample_event 3 30 (Some ''carol'') (Some [])] [] = None"
  by (simp add: session_aggregate_def spec_session_aggregate_def collect_session_data_def
      session_data_step_def session_event_count_def sample_event_def)

section \<open>Event counts of the sessions\<close>

lemma collect_session_data_keys:
  "fst ` set (collect_session_data (evs :: audit_event_create list))
     = {sid. sid \<noteq> [] \<and> (\<exists>e \<in> set evs. session_id e = Some sid)}"
proof (rule set_eqI)
  fix sid
  show "sid \<in> fst ` set (collect_session_data evs)
      \<longleftrightarrow> sid \<in> {sid. sid \<noteq> [] \<and> (\<exists>e \<in> set evs. session_id e = Some sid)}"
  proof (cases "sid = []")
    case True
    then show ?thesis
      using collect_session_data_empty_id [of evs] by (simp add: map_of_eq_None_iff)
  next
    case False
    let ?es = "filter (\<lambda>e. session_id e = Some sid) evs"
    have "sid \<in> fst ` set (collect_session_data evs)
        \<longleftrightarrow> map_of (collect_session_data evs) sid \<noteq> None"
      by (simp add: map_of_eq_None_iff)
    also have "\<dots> \<longleftrightarrow> first_earliest ?es \<noteq> None"
      using collect_session_data_entry [OF False, of evs] by simp
    also have "\<dots> \<longleftrightarrow> ?es \<noteq> []"
      using first_earliest_None [of ?es] by (auto simp: first_earliest_def)
    also have "\<dots> \<longleftrightarrow> (\<exists>e \<in> set evs. session_id e = Some sid)"
      by (auto simp: filter_empty_conv)
    finally show ?thesis using False by simp
  qed
qed

lemma length_filter_disjoint:
  "(\<And>x. x \<in> set xs \<Longrightarrow> \<not> (P x \<and> Q x)) \<Longrightarrow>
   length (filter (\<lambda>x. P x \<or> Q x) xs) = length (filter P xs) + length (filter Q xs)"
  by (induction xs) auto

lemma sum_session_event_count:
  "distinct ks \<Longrightarrow>
   sum_list (map (session_event_count evs) ks)
     = int (length (filter (\<lambda>e. \<exists>k \<in> set ks. session_id e = Some k) evs))"
proof (induction ks)
  case Nil
  then show ?case by simp
next
  case (Cons k ks)
  have "length (filter (\<lambda>e. session_id e = Some k \<or> (\<exists>k' \<in> set ks. session_id e = Some k')) evs)
      = length (filter (\<lambda>e. session_id e = Some k) evs)
        + length (filter (\<lambda>e. \<exists>k' \<in> set ks. session_id e = Some k') evs)"
    using Cons.prems by (intro length_filter_disjoint) auto
  then show ?case
    using Cons by (simp add: session_event_count_def)
qed

lemma sum_increments:
  "sum_list (map (\<lambda>(sid, v). session_event_count evs sid) (collect_session_data evs))
     = int (length (filter carries_session_id evs))"
proof -
  let ?ks = "map fst (collect_session_data evs)"
  have eq1: "map (\<lambda>(sid, v). session_event_count evs sid) (collect_session_data evs)
      = map (session_event_count evs) ?ks"
    by (induction "collect_session_data evs") auto
  have eq2: "sum_list (map (session_event_count evs) ?ks)
      = int (length (filter (\<lambda>e. \<exists>k \<in> set ?ks. session_id e = Some k) evs))"
    using collect_session_data_distinct by (rule sum_session_event_count)
  have eq3: "filter (\<lambda>e. \<exists>k \<in> set ?ks. session_id e = Some k) evs
      = filter carries_session_id evs"
  proof (rule filter_cong [OF refl])
    fix e assume "e \<in> set evs"
    then show "(\<exists>k \<in> set ?ks. session_id e = Some k) = carries_session_id e"
      using collect_session_data_keys [of evs]
      by (auto simp: carries_session_id_def split: option.splits)
  qed
  show ?thesis
    by (simp only: eq1 eq2 eq3)
qed

lemma upsert_session_total:
  "total_event_count (pending (upsert_session d sid u m t)) = total_event_count (pending d)"
  by (auto simp: upsert_session_def total_event_count_def Let_def upsert_existing_def comp_def
      split: option.splits intro!: arg_cong [where f = sum_list])

lemma upsert_session_ids:
  "map sess_session_id (sessions (pending (upsert_session d sid u m t)))
     = (if sid \<in> set (map sess_session_id (sessions (pending d)))
        then map sess_session_id (sessions (pending d))
        else map sess_session_id (sessions (pending d)) @ [sid])"
proof (cases "find (\<lambda>s. sess_session_id s = sid) (sessions (pending d))")
  case None
  then have "sid \<notin> set (map sess_session_id (sessions (pending d)))"
    by (auto simp: find_None_iff)
  then show ?thesis
    using None by (simp add: upsert_session_def Let_def)
next
  case (Some s)
  then have "sid \<in> set (map sess_session_id (sessions (pending d)))"
    by (auto simp: find_Some_iff)
  then show ?thesis
    using Some by (simp add: upsert_session_def Let_def comp_def if_distrib cong: if_cong)
qed

lemma increment_rows_total:
  "distinct (map sess_session_id rows) \<Longrightarrow> sid \<in> set (map sess_session_id rows) \<Longrightarrow>
   sum_list (map sess_event_count
      (map (\<lambda>s. if sess_session_id s = sid
                then s\<lparr>sess_event_count := sess_event_count s + n\<rparr> else s) rows))
     = sum_list (map sess_event_count rows) + n"
proof (induction rows)
  case Nil
  then show ?case by simp
next
  case (Cons r rows)
  show ?case
  proof (cases "sess_session_id r = sid")
    case True
    then have "sid \<notin> set (map sess_session_id rows)" using Cons.prems(1) by auto
    then have "map (\<lambda>s. if sess_session_id s = sid
                then s\<lparr>sess_event_count := sess_event_count s + n\<rparr> else s) rows = rows"
      by (induction rows) auto
    then show ?thesis using True by simp
  next
    case False
    then show ?thesis using Cons by auto
  qed
qed

lemma increment_event_count_ids:
  "map sess_session_id (sessions (pending (increment_event_count d sid n)))
     = map sess_session_id (sessions (pending d))"
  by (simp add: increment_event_count_def comp_def if_distrib cong: if_cong)

lemma upsert_and_count_total:
  assumes "distinct (map sess_session_id (sessions (pending d)))"
  shows "total_event_count (pending (upsert_and_count evs d (sid, u, m, t)))
           = total_event_count (pending d) + session_event_count evs sid
       \<and> distinct (map sess_session_id (sessions (pending (upsert_and_count evs d (sid, u, m, t)))))"
proof -
  let ?d1 = "upsert_session d sid u m (Aware t 0)"
  have ids: "distinct (map sess_session_id (sessions (pending ?d1)))"
    and mem: "sid \<in> set (map sess_session_id (sessions (pending ?d1)))"
    using assms by (auto simp: upsert_session_ids)
  have "total_event_count (pending (increment_event_count ?d1 sid (session_event_count evs sid)))
      = total_event_count (pending ?d1) + session_event_count evs sid"
    using increment_rows_total [OF ids mem]
    by (simp add: increment_event_count_def total_event_count_def)
  then show ?thesis
    using ids by (simp add: upsert_and_count_def upsert_session_total increment_event_count_ids)
qed

lemma foldl_upsert_and_count_total:
  "distinct (map sess_session_id (sessions (pending d))) \<Longrightarrow>
   total_event_count (pending (foldl (upsert_and_count evs) d items))
     = total_event_count (pending d)
       + sum_list (map (\<lambda>(sid, v). session_event_count evs sid) items)"
proof (induction items arbitrary: d)
  case Nil
  then show ?case by simp
next
  case (Cons item items)
  obtain sid u m t where item: "item = (sid, u, m, t)" by (cases item) auto
  note step = upsert_and_count_total [OF Cons.prems, of evs sid u m t]
  show ?case
    using Cons.IH [of "upsert_and_count evs d item"] step item by simp
qed

lemma update_sessions_total:
  "distinct (map sess_session_id (sessions (pending d))) \<Longrightarrow>
   total_event_count (pending (update_sessions d evs))
     = total_event_count (pending d) + int (length (filter carries_session_id evs))"
  unfolding update_sessions_def
  by (simp add: foldl_upsert_and_count_total sum_increments)

lemma flush_events_sessions:
  "flush_events d b = Inr d' \<Longrightarrow> sessions (pending d') = sessions (pending d)"
  by (auto simp: flush_events_def Let_def split: if_splits)

lemma insert_batches_sessions:
  "insert_batches d bs n = Inr (d', k) \<Longrightarrow> sessions (pending d') = sessions (pending d)"
proof (induction bs arbitrary: d n)
  case Nil
  then show ?case by simp
next
  case (Cons b bs)
  then show ?case
    by (auto split: sum.splits dest: flush_events_sessions)
qed

lemma bulk_create_sessions:
  "bulk_create d evs n = (d', Inr k) \<Longrightarrow> sessions (pending d') = sessions (pending d)"
  by (auto simp: bulk_create_def bulk_create_try_def commit_def
      split: if_splits sum.splits dest: insert_batches_sessions)

text \<open>
  C4. When a batch is ingested with success (no error reported), the increments that
  \<^verbatim>\<open>_update_sessions\<close> passes to \<^verbatim>\<open>increment_event_count\<close>, one per session id collected,
  add up to the number of events of the batch whose session id is present and not
  empty, and the event counts of the session table grow in total by exactly that
  number; an event without a session id is counted for no session. The session ids of
  the table are distinct, as its primary key has it.
\<close>

theorem ingest_batch_event_count_increments:
  assumes "distinct (map sess_session_id (sessions (pending d)))"
      and "errors (fst (ingest_batch cfg t0 t1 d evs True)) = []"
  shows "sum_list (map (\<lambda>(sid, v). session_event_count evs sid) (collect_session_data evs))
           = int (length (filter carries_session_id evs))
       \<and> total_event_count (pending (snd (ingest_batch cfg t0 t1 d evs True)))
           = total_event_count (pending d) + int (length (filter carries_session_id evs))"
proof -
  let ?d1 = "update_sessions d evs"
  obtain d2 r where bc: "bulk_create ?d1 evs (max_batch_size cfg) = (d2, r)"
    by (cases "bulk_create ?d1 evs (max_batch_size cfg)") auto
  have small: "\<not> int (length evs) > max_batch_size cfg"
    using assms(2) by (auto simp: ingest_batch_def)
  obtain k where r: "r = Inr k"
    using assms(2) small bc by (cases r) (auto simp: ingest_batch_def Let_def)
  have "snd (ingest_batch cfg t0 t1 d evs True) = d2"
    using small bc r by (simp add: ingest_batch_def Let_def)
  moreover have "sessions (pending d2) = sessions (pending ?d1)"
    using bc r bulk_create_sessions by blast
  ultimately have "total_event_count (pending (snd (ingest_batch cfg t0 t1 d evs True)))
      = total_event_count (pending ?d1)"
    by (simp add: total_event_count_def)
  then show ?thesis
    using update_sessions_total [OF assms(1), of evs] sum_increments [of evs] by simp
qed


theorem ingest_batch_event_count_increments_witness:
  "distinct (map sess_session_id (sessions (pending empty_db)))
   \<and> errors (fst (ingest_batch \<lparr>max_batch_size = 10, event_retention_days = 90\<rparr> 0 0 empty_db
        [sample_event 1 10 (Some ''alice'') (Some ''s1''),
         sample_event 2 20 (Some ''bob'') (Some ''s2''),
         sample_event 3 30 (Some ''carol'') None,
         sample_event 4 40 (Some ''dave'') (Some []),
         sample_event 5 50 (Some ''alice'') (Some ''s1'')] True)) = []
   \<and> total_event_count (pending (snd (ingest_batch \<lparr>max_batch_size = 10, event_retention_days = 90\<rparr> 0 0 empty_db
        [sample_event 1 10 (Some ''alice'') (Some ''s1''),
         sample_event 2 20 (Some ''bob'') (Some ''s2''),
         sample_event 3 30 (Some ''carol'') None,
         sample_event 4 40 (Some ''dave'') (Some []),
         sample_event 5 50 (Some ''alice'') (Some ''s1'')] True))) = 3"
proof -
  let ?cfg = "\<lparr>max_batch_size = 10, event_retention_days = 90\<rparr>"
  let ?evs = "[sample_event 1 10 (Some ''alice'') (Some ''s1''),
         sample_event 2 20 (Some ''bob'') (Some ''s2''),
         sample_event 3 30 (Some ''carol'') None,
         sample_event 4 40 (Some ''dave'') (Some []),
         sample_event 5 50 (Some ''alice'') (Some ''s1'')]"
  have h1: "distinct (map sess_session_id (sessions (pending empty_db)))"
    by (simp add: empty_db_def)
  have h2: "errors (fst (ingest_batch ?cfg 0 0 empty_db ?evs True)) = []"
    by (simp add: ingest_batch_def bulk_create_def bulk_create_try_def chunked.simps
        flush_events_def to_row_def sample_event_def update_sessions_def
        collect_session_data_def session_data_step_def upsert_and_count_def
        upsert_session_def increment_event_count_def session_event_count_def
        empty_db_def commit_def Let_def)
  have n: "int (length (filter carries_session_id ?evs)) = 3"
    by (simp add: carries_session_id_def sample_event_def)
  have z: "total_event_count (pending empty_db) = 0"
    by (simp add: total_event_count_def empty_db_def)
  show ?thesis
    using h1 h2 ingest_batch_event_count_increments [OF h1 h2] n z by simp
qed

section \<open>Queries: total count and sorting\<close>

lemma matches_pagination [simp]:
  "matches (q\<lparr>offset := off, limit := lim'\<rparr>) = matches q"
  by (rule ext) (simp add: matches_def)

lemma query_events_column:
  assumes "order_column b (order_by q) = Column c"
  shows "query_events b d q =
           Inr (take (limit q) (drop (offset q)
                  (if order_desc q
                   then rev (sort_key (column_key c) (filter (matches q) (events (pending d))))
                   else sort_key (column_key c) (filter (matches q) (events (pending d))))),
                length (filter (matches q) (events (pending d))))"
  using assms by (simp add: query_events_def Let_def)

lemma query_events_plain:
  assumes "order_column b (order_by q) = Plain_object"
  shows "query_events b d q = Inl AttributeError"
  using assms by (simp add: query_events_def Let_def)

text \<open>
  Two requests that differ only in offset and limit have the same outcome as far as the
  total goes: the same total, or the same exception.
\<close>

lemma query_events_total_same:
  "map_sum id snd (query_events b d (q\<lparr>offset := offa, limit := lima\<rparr>))
     = map_sum id snd (query_events b d (q\<lparr>offset := offb, limit := limb\<rparr>))"
proof (cases "order_column b (order_by q)")
  case (Column c)
  then show ?thesis
    by (simp add: query_events_column)
next
  case Plain_object
  then show ?thesis
    by (simp add: query_events_plain)
qed

text \<open>
  When the sort attribute is a column, the request returns and its total is the number
  of all rows the filters select, whatever the page.
\<close>

lemma query_events_returns_total:
  assumes "order_column b (order_by q) \<noteq> Plain_object"
  shows "\<exists>page. query_events b d q
                  = Inr (page, length (filter (matches q) (events (pending d))))"
  using assms by (cases "order_column b (order_by q)") (simp_all add: query_events_column)

lemma order_column_timestamp: "order_column b ''timestamp'' = Column Col_timestamp"
  by (simp add: order_column_def AuditEvent_attrs_def)

text \<open>
  C6 fails on the code, by the defect of C7. On an empty store the request with
  \<^verbatim>\<open>order_by = "__tablename__"\<close> selects no row; the count is taken, and then the call of
  \<^verbatim>\<open>.desc()\<close> on the table's name raises \<^verbatim>\<open>AttributeError\<close>, for any offset and limit: the
  empty selection is answered with an exception, where the claim has it answered with
  total 0 and an empty list.
\<close>

theorem query_events_empty_selection_raises:
  "filter (matches (default_query\<lparr>order_by := ''__tablename__''\<rparr>))
      (events (pending (db_of [] []))) = []
   \<and> query_events b (db_of [] []) (default_query\<lparr>order_by := ''__tablename__''\<rparr>)
       = Inl AttributeError
   \<and> query_events b (db_of [] [])
        (default_query\<lparr>order_by := ''__tablename__'', offset := 5, limit := 1\<rparr>)
       = Inl AttributeError"
  by (simp add: query_events_def order_column_def AuditEvent_attrs_def default_query_def
      db_of_def)

text \<open>
  C7 fails on the code. \<^verbatim>\<open>__tablename__\<close> names no sort column, yet \<^verbatim>\<open>getattr\<close> finds it
  on the class and returns the table's name, a str; the call of \<^verbatim>\<open>.desc()\<close> on it raises
  \<^verbatim>\<open>AttributeError\<close>, whatever the store holds: no fallback to the timestamp, no result.
\<close>

theorem query_events_order_by_non_column:
  "order_column b ''__tablename__'' = Plain_object
   \<and> query_events b d (default_query\<lparr>order_by := ''__tablename__''\<rparr>) = Inl AttributeError"
  by (simp add: query_events_def order_column_def AuditEvent_attrs_def default_query_def)

text \<open>
  What does hold of the sorting: a name that is bound nowhere falls back to the
  timestamp, a name bound outside the class body raises like the three of the class
  body, and the default request returns its page newest first.
\<close>

lemma query_events_unknown_order_by:
  assumes "map_of AuditEvent_attrs name = None" and "\<not> b name"
  shows "query_events b d (q\<lparr>order_by := name\<rparr>)
       = query_events b d (q\<lparr>order_by := ''timestamp''\<rparr>)"
proof -
  have "order_column b name = Column Col_timestamp"
    using assms by (simp add: order_column_def)
  moreover have "matches (q\<lparr>order_by := name\<rparr>) = matches (q\<lparr>order_by := ''timestamp''\<rparr>)"
    by (rule ext) (simp add: matches_def)
  ultimately show ?thesis
    by (simp add: query_events_def order_column_timestamp)
qed

lemma query_events_bound_elsewhere:
  assumes "map_of AuditEvent_attrs name = None" and "b name"
  shows "query_events b d (q\<lparr>order_by := name\<rparr>) = Inl AttributeError"
  using assms by (simp add: query_events_def order_column_def)

lemma sorted_timestamp_of_key:
  "sorted (map (column_key Col_timestamp) xs) \<Longrightarrow> sorted (map timestamp xs)"
  by (induction xs) (auto simp: number_key_def)

lemma query_events_default_descending:
  assumes "query_events b d default_query = Inr (page, n)"
  shows "sorted (rev (map timestamp page))"
proof -
  let ?m = "filter (matches default_query) (events (pending d))"
  have page: "page = take 100 (rev (sort_key (column_key Col_timestamp) ?m))"
    using assms
    by (simp add: query_events_def default_query_def order_column_timestamp Let_def)
  have "sorted (map timestamp (sort_key (column_key Col_timestamp) ?m))"
    by (rule sorted_timestamp_of_key) simp
  then have "sorted (rev (map timestamp (rev (sort_key (column_key Col_timestamp) ?m))))"
    by (simp add: rev_map)
  then have "sorted (drop (length ?m - 100) (rev (map timestamp (rev (sort_key (column_key Col_timestamp) ?m)))))"
    by (rule sorted_wrt_drop)
  then show ?thesis
    unfolding page by (simp add: rev_map take_map rev_take drop_map)
qed

section \<open>Retention cleanup\<close>

lemma delete_where_keeps: "filter (\<lambda>x. \<not> P x) (delete_where cap P xs) = filter (\<lambda>x. \<not> P x) xs"
  by (induction cap P xs rule: delete_where.induct) auto

lemma delete_where_None: "delete_where None P xs = filter (\<lambda>x. \<not> P x) xs"
  by (induction xs) auto

lemma delete_where_length:
  "length (delete_where (Some n) P xs) + min n (length (filter P xs)) = length xs"
proof (induction xs arbitrary: n)
  case Nil
  then show ?case by simp
next
  case (Cons x xs)
  show ?case
  proof (cases "P x \<and> n \<noteq> 0")
    case True
    then obtain k where k: "n = Suc k" by (cases n) auto
    then show ?thesis
      using True Cons.IH [of k] by simp
  next
    case False
    then show ?thesis
      using Cons.IH [of n] by auto
  qed
qed

lemma delete_where_old:
  "length (filter P (delete_where (Some n) P xs)) = length (filter P xs) - n"
proof (induction xs arbitrary: n)
  case Nil
  then show ?case by simp
next
  case (Cons x xs)
  show ?case
  proof (cases "P x \<and> n \<noteq> 0")
    case True
    then obtain k where k: "n = Suc k" by (cases n) auto
    then show ?thesis using True Cons.IH [of k] by simp
  next
    case False
    then show ?thesis using Cons.IH [of n] by auto
  qed
qed

lemma delete_where_all:
  "length (filter P xs) \<le> n \<Longrightarrow> delete_where (Some n) P xs = filter (\<lambda>x. \<not> P x) xs"
proof (induction xs arbitrary: n)
  case Nil
  then show ?case by simp
next
  case (Cons x xs)
  show ?case
  proof (cases "P x")
    case True
    then obtain k where k: "n = Suc k" using Cons.prems by (cases n) auto
    then show ?thesis using True Cons by simp
  next
    case False
    then show ?thesis using Cons by simp
  qed
qed

lemma length_filter_split:
  "length (filter P xs) + length (filter (\<lambda>x. \<not> P x) xs) = length xs"
  by (induction xs) auto

lemma deleted_count_eq:
  "deleted_count has_limit before_date batch_size d
     = (if has_limit then min batch_size (old_rows before_date d) else old_rows before_date d)"
proof -
  let ?P = "\<lambda>e. timestamp e < before_date"
  let ?xs = "events (pending d)"
  have le: "length (filter ?P ?xs) \<le> length ?xs" by simp
  have split: "length (filter ?P ?xs) + length (filter (\<lambda>x. \<not> ?P x) ?xs) = length ?xs"
    by (rule length_filter_split)
  show ?thesis
  proof (cases has_limit)
    case True
    then show ?thesis
      using delete_where_length [of batch_size ?P ?xs]
      by (simp add: deleted_count_def delete_pass_def commit_def old_rows_def)
  next
    case False
    then show ?thesis
      using split
      by (simp add: deleted_count_def delete_pass_def commit_def delete_where_None
          old_rows_def)
  qed
qed

lemma old_rows_delete_pass:
  "old_rows before_date (delete_pass has_limit before_date batch_size d)
     = old_rows before_date d - deleted_count has_limit before_date batch_size d"
  unfolding deleted_count_eq
  by (auto simp: old_rows_def delete_pass_def commit_def delete_where_old delete_where_None
      min_def)

lemma purged_delete_pass:
  "purged before_date (delete_pass has_limit before_date batch_size d) = purged before_date d"
  by (simp add: purged_def delete_pass_def commit_def delete_where_keeps)

lemma delete_pass_last:
  assumes "deleted_count has_limit before_date batch_size d < batch_size"
  shows "delete_pass has_limit before_date batch_size d = purged before_date d"
proof (cases has_limit)
  case True
  then have "old_rows before_date d \<le> batch_size"
    using assms by (simp add: deleted_count_eq min_def split: if_splits)
  then show ?thesis
    using True by (simp add: delete_pass_def purged_def delete_where_all old_rows_def)
next
  case False
  then show ?thesis
    by (simp add: delete_pass_def purged_def delete_where_None)
qed

lemma delete_loop_completes:
  assumes "0 < batch_size"
  shows "\<exists>passes. delete_loop has_limit before_date batch_size d total_deleted logged
           = Some (purged before_date d, total_deleted + old_rows before_date d, logged @ passes)
         \<and> passes \<noteq> [] \<and> last passes < batch_size
         \<and> (\<forall>c \<in> set (butlast passes). batch_size \<le> c)
         \<and> (has_limit \<longrightarrow> (\<forall>c \<in> set passes. c \<le> batch_size))"
proof (induction "old_rows before_date d" arbitrary: d total_deleted logged rule: less_induct)
  case less
  let ?c = "deleted_count has_limit before_date batch_size d"
  let ?d1 = "delete_pass has_limit before_date batch_size d"
  have c_le: "?c \<le> old_rows before_date d"
    by (simp add: deleted_count_eq)
  have c_lim: "has_limit \<longrightarrow> ?c \<le> batch_size"
    by (simp add: deleted_count_eq)
  show ?case
  proof (cases "?c < batch_size")
    case True
    have all: "?c = old_rows before_date d"
      using True by (auto simp: deleted_count_eq min_def split: if_splits)
    have "delete_loop has_limit before_date batch_size d total_deleted logged
        = Some (purged before_date d, total_deleted + old_rows before_date d, logged @ [?c])"
      using True all delete_pass_last [OF True]
      by (subst delete_loop.simps) simp
    then show ?thesis
      using True c_lim by (intro exI [of _ "[?c]"]) simp
  next
    case False
    then have pos: "0 < ?c" using assms by simp
    have smaller: "old_rows before_date ?d1 < old_rows before_date d"
      using pos c_le by (simp add: old_rows_delete_pass)
    from less [OF smaller, of "total_deleted + ?c" "logged @ [?c]"]
    obtain passes where
      run: "delete_loop has_limit before_date batch_size ?d1 (total_deleted + ?c) (logged @ [?c])
          = Some (purged before_date ?d1, total_deleted + ?c + old_rows before_date ?d1,
                  (logged @ [?c]) @ passes)"
      and ne: "passes \<noteq> []" and lst: "last passes < batch_size"
      and full: "\<forall>c \<in> set (butlast passes). batch_size \<le> c"
      and lim: "has_limit \<longrightarrow> (\<forall>c \<in> set passes. c \<le> batch_size)"
      by blast
    have "delete_loop has_limit before_date batch_size d total_deleted logged
        = Some (purged before_date d, total_deleted + old_rows before_date d,
                logged @ (?c # passes))"
      using False run c_le
      by (subst delete_loop.simps) (simp add: purged_delete_pass old_rows_delete_pass)
    then show ?thesis
      using ne lst full lim False c_lim
      by (intro exI [of _ "?c # passes"]) auto
  qed
qed

lemma purged_tables:
  "events (pending (purged before_date d))
     = filter (\<lambda>e. \<not> timestamp e < before_date) (events (pending d))
   \<and> committed (purged before_date d) = pending (purged before_date d)
   \<and> sessions (pending (purged before_date d)) = sessions (pending d)"
  by (simp add: purged_def commit_def)

text \<open>
  What holds of \<^verbatim>\<open>delete_old_events\<close> for a positive batch size: the loop ends. The store
  it leaves, committed, holds exactly the events that are not older than the cutoff, in
  their order, and the sessions as they were; the number returned is the number of
  events older than the cutoff. The passes logged are all of at least the batch size
  except the last, which is smaller than it; each is at most the batch size when the
  delete statement offers a limit.
\<close>

lemma delete_old_events_completes:
  assumes "0 < batch_size"
  shows "(\<exists>passes. delete_old_events has_limit d before_date batch_size
             = Some (purged before_date d, old_rows before_date d, passes)
           \<and> passes \<noteq> [] \<and> last passes < batch_size
           \<and> (\<forall>c \<in> set (butlast passes). batch_size \<le> c)
           \<and> (has_limit \<longrightarrow> (\<forall>c \<in> set passes. c \<le> batch_size)))
       \<and> events (pending (purged before_date d))
             = filter (\<lambda>e. \<not> timestamp e < before_date) (events (pending d))
       \<and> committed (purged before_date d) = pending (purged before_date d)
       \<and> sessions (pending (purged before_date d)) = sessions (pending d)"
  using delete_loop_completes [OF assms, of has_limit before_date d 0 "[]"]
    purged_tables [of before_date d]
  by (simp add: delete_old_events_def)

text \<open>
  Without a limit on the statement the run is: one pass that deletes every old row,
  and, when these were as many as the batch size or more, a second pass that deletes
  nothing.
\<close>

lemma delete_old_events_no_limit:
  assumes "0 < batch_size"
  shows "delete_old_events False d before_date batch_size
           = Some (purged before_date d, old_rows before_date d,
                   if old_rows before_date d < batch_size then [old_rows before_date d]
                   else [old_rows before_date d, 0])"
proof -
  let ?d1 = "delete_pass False before_date batch_size d"
  have c: "deleted_count False before_date batch_size d = old_rows before_date d"
    by (simp add: deleted_count_eq)
  have p: "?d1 = purged before_date d"
    by (simp add: delete_pass_def purged_def delete_where_None)
  show ?thesis
  proof (cases "old_rows before_date d < batch_size")
    case True
    then show ?thesis
      unfolding delete_old_events_def
      by (subst delete_loop.simps) (simp add: c p)
  next
    case False
    have o1: "old_rows before_date ?d1 = 0"
      by (simp add: old_rows_delete_pass c)
    have c1: "deleted_count False before_date batch_size ?d1 = 0"
      by (simp add: deleted_count_eq o1)
    have p1: "delete_pass False before_date batch_size ?d1 = purged before_date d"
      using delete_pass_last [of False before_date batch_size ?d1] assms
      by (simp add: c1 purged_delete_pass)
    have "delete_loop False before_date batch_size ?d1 (0 + old_rows before_date d)
             ([] @ [old_rows before_date d])
           = Some (purged before_date d, old_rows before_date d, [old_rows before_date d, 0])"
      using assms by (subst delete_loop.simps) (simp add: c1 p1)
    then show ?thesis
      unfolding delete_old_events_def
      using False by (subst delete_loop.simps) (simp add: c)
  qed
qed

text \<open>
  \<^verbatim>\<open>cleanup_old_events\<close> returns in the same way when the date arithmetic does not
  overflow, and raises before any deletion when it does.
\<close>

lemma cleanup_old_events_returns:
  assumes "timedelta_days (case retention_days of
                             None \<Rightarrow> event_retention_days cfg | Some r \<Rightarrow> r) = Inr delta"
    and "datetime_sub now delta = Inr cutoff"
  shows "\<exists>passes. cleanup_old_events has_limit cfg now d retention_days
           = Some (Inr (purged cutoff d, old_rows cutoff d, passes))"
proof -
  have "(0::nat) < 1000" by simp
  from delete_loop_completes [OF this, of has_limit cutoff d 0 "[]"]
  show ?thesis
    using assms by (auto simp: cleanup_old_events_def delete_old_events_def Let_def)
qed

lemma cleanup_old_events_overflow:
  "cleanup_old_events has_limit cfg now d (Some 1000000000) = Some (Inl OverflowError)"
  by (simp add: cleanup_old_events_def timedelta_days_def)

lemma old_events_length [simp]: "length (old_events n) = n"
  by (simp add: old_events_def)

lemma sample_row_timestamp [simp]: "timestamp (sample_row i ts) = ts"
  by (simp add: sample_row_def to_row_def sample_event_def)

lemma old_events_filter_old:
  "0 < c \<Longrightarrow> filter (\<lambda>e. timestamp e < c) (old_events n) = old_events n"
  by (simp add: old_events_def filter_map o_def)

lemma old_events_filter_kept:
  "0 < c \<Longrightarrow> filter (\<lambda>e. \<not> timestamp e < c) (old_events n) = []"
  by (simp add: old_events_def filter_map o_def)

text \<open>
  C8 fails on the code. \<^verbatim>\<open>delete_old_events\<close> is documented to delete in batches and
  builds \<^verbatim>\<open>stmt.limit(batch_size)\<close> for it, but only if the delete statement has a
  \<^verbatim>\<open>limit\<close>, which it does not: every run executes the statement without a limit, and
  the first pass deletes all rows older than the cutoff at once, whatever the batch
  size. On a store of 1001 rows at the epoch and one row of day 100, the cleanup of day
  100 with the default retention of 90 days and the default batch size 1000 deletes
  1001 rows in its first pass, more than the batch size, and none in its second. The
  rows older than the cutoff are gone and the other row is untouched.
\<close>

theorem delete_old_events_unbounded_pass:
  "deleted_count False before_date batch_size d = old_rows before_date d
   \<and> deleted_count False (days 10) 1000
        (db_of (old_events 1001 @ [sample_row 1001 (days 100)]) []) = 1001
   \<and> cleanup_old_events False \<lparr>max_batch_size = 1000, event_retention_days = 90\<rparr> (days 100)
        (db_of (old_events 1001 @ [sample_row 1001 (days 100)]) []) None
       = Some (Inr (db_of [sample_row 1001 (days 100)] [], 1001, [1001, 0]))"
proof -
  let ?d = "db_of (old_events 1001 @ [sample_row 1001 (days 100)]) []"
  have pos: "(0::int) < days 10"
    by (simp add: days_def)
  have recent: "\<not> days 100 < days 10"
    by (simp add: days_def)
  have o: "old_rows (days 10) ?d = 1001"
    using pos recent by (simp add: old_rows_def db_of_def old_events_filter_old)
  have p: "purged (days 10) ?d = db_of [sample_row 1001 (days 100)] []"
    using pos recent by (simp add: purged_def commit_def db_of_def old_events_filter_kept)
  have cut: "datetime_sub (days 100) (days 90) = Inr (days 10)"
    by (simp add: datetime_sub_def datetime_min_def datetime_max_def days_def)
  have "(0::nat) < 1000" by simp
  from delete_old_events_no_limit [OF this, of ?d "days 10"]
  have run: "delete_old_events False ?d (days 10) 1000
               = Some (db_of [sample_row 1001 (days 100)] [], 1001, [1001, 0])"
    by (simp add: o p)
  have one: "deleted_count False before_date batch_size d = old_rows before_date d"
    by (simp add: deleted_count_eq)
  have two: "deleted_count False (days 10) 1000 ?d = 1001"
    by (simp add: deleted_count_eq o)
  have three: "cleanup_old_events False \<lparr>max_batch_size = 1000, event_retention_days = 90\<rparr>
                 (days 100) ?d None
               = Some (Inr (db_of [sample_row 1001 (days 100)] [], 1001, [1001, 0]))"
    by (simp add: cleanup_old_events_def timedelta_days_def cut run)
  show ?thesis
    using one two three by blast
qed

section \<open>Stale-session reaper: one tick\<close>

text \<open>
  C9 fails on the code. A session row whose start comes back from the store without
  \<^verbatim>\<open>tzinfo\<close>, active and started 48 hours before now, is stale; the reaper compares the
  naive start with the aware cutoff, Python raises \<^verbatim>\<open>TypeError\<close>, the tick logs the failure
  and the session is not closed.
\<close>

theorem close_stale_sessions_naive_start:
  "is_stale (hours 48) (sample_session ''s1'' (Naive 0) None)
   \<and> close_stale_sessions (hours 48) (db_of [] [sample_session ''s1'' (Naive 0) None])
       = (db_of [] [sample_session ''s1'' (Naive 0) None], None)
   \<and> session_get_by_id
        (fst (close_stale_sessions (hours 48) (db_of [] [sample_session ''s1'' (Naive 0) None])))
        ''s1'' = Some (sample_session ''s1'' (Naive 0) None)"
  by (simp add: close_stale_sessions_def get_active_sessions_def db_of_def sample_session_def
      is_stale_def hours_def rollback_def session_get_by_id_def)

lemma close_stale_loop_fold:
  assumes "\<forall>a \<in> set as. \<exists>t off. sess_start_time a = Aware t off"
  shows "close_stale_loop d (Aware c z) as n
       = (foldl end_step d (filter (\<lambda>a. instant (sess_start_time a) < c) as),
          Inr (n + length (filter (\<lambda>a. instant (sess_start_time a) < c) as)))"
  using assms
proof (induction as arbitrary: d n)
  case Nil
  then show ?case by simp
next
  case (Cons a as)
  obtain t off where t: "sess_start_time a = Aware t off" using Cons.prems by auto
  have rest: "\<forall>a \<in> set as. \<exists>t off. sess_start_time a = Aware t off" using Cons.prems by simp
  show ?case
    using t Cons.IH [OF rest] by (simp add: end_step_def)
qed

lemma end_step_other:
  "events (pending (end_step d a)) = events (pending d)
   \<and> server_now (end_step d a) = server_now d
   \<and> committed (end_step d a) = pending (end_step d a)"
  by (simp add: end_step_def end_session_def commit_def)

lemma end_step_sessions:
  assumes "distinct (map sess_session_id (sessions (pending d)))"
      and "a \<in> set (sessions (pending d))"
      and "\<exists>t off. sess_start_time a = Aware t off"
  shows "sessions (pending (end_step d a))
       = map (\<lambda>r. if r = a then closed_row a else r) (sessions (pending d))"
proof -
  obtain t off where t: "sess_start_time a = Aware t off" using assms(3) by blast
  have inj: "inj_on sess_session_id (set (sessions (pending d)))"
    using assms(1) by (simp add: distinct_map)
  have "map (\<lambda>s. if sess_session_id s = sess_session_id a
                  then s\<lparr>sess_end_time := Some (ensure_timezone_aware (dt_add (sess_start_time a) (hours 24)))\<rparr>
                  else s) (sessions (pending d))
      = map (\<lambda>r. if r = a then closed_row a else r) (sessions (pending d))"
  proof (rule map_cong [OF refl])
    fix r assume r: "r \<in> set (sessions (pending d))"
    have "sess_session_id r = sess_session_id a \<longleftrightarrow> r = a"
      using inj r assms(2) by (auto dest: inj_onD)
    then show "(if sess_session_id r = sess_session_id a
                then r\<lparr>sess_end_time := Some (ensure_timezone_aware (dt_add (sess_start_time a) (hours 24)))\<rparr>
                else r) = (if r = a then closed_row a else r)"
      using t by (auto simp: closed_row_def)
  qed
  then show ?thesis
    by (simp add: end_step_def end_session_def commit_def)
qed

lemma foldl_end_step_sessions:
  assumes "distinct (map sess_session_id (sessions (pending d)))"
      and "set cs \<subseteq> set (sessions (pending d))"
      and "distinct cs"
      and "\<forall>a \<in> set cs. \<exists>t off. sess_start_time a = Aware t off"
  shows "sessions (pending (foldl end_step d cs))
       = map (\<lambda>r. if r \<in> set cs then closed_row r else r) (sessions (pending d))"
  using assms
proof (induction cs arbitrary: d)
  case Nil
  then show ?case by simp
next
  case (Cons a cs)
  let ?rows = "sessions (pending d)"
  let ?d1 = "end_step d a"
  have a_in: "a \<in> set ?rows" using Cons.prems(2) by simp
  have a_aware: "\<exists>t off. sess_start_time a = Aware t off" using Cons.prems(4) by simp
  have rows1: "sessions (pending ?d1) = map (\<lambda>r. if r = a then closed_row a else r) ?rows"
    using Cons.prems(1) a_in a_aware by (rule end_step_sessions)
  have inj: "inj_on sess_session_id (set ?rows)"
    using Cons.prems(1) by (simp add: distinct_map)
  have closed_id: "sess_session_id (closed_row a) = sess_session_id a"
    by (simp add: closed_row_def)
  have ids1: "map sess_session_id (sessions (pending ?d1)) = map sess_session_id ?rows"
    unfolding rows1 using closed_id by (simp add: comp_def if_distrib cong: if_cong)
  have d1: "distinct (map sess_session_id (sessions (pending ?d1)))"
    using Cons.prems(1) ids1 by simp
  have not_a: "\<And>b. b \<in> set cs \<Longrightarrow> b \<noteq> a \<and> sess_session_id b \<noteq> sess_session_id a"
  proof -
    fix b assume b: "b \<in> set cs"
    then have ne: "b \<noteq> a" using Cons.prems(3) by auto
    moreover have "b \<in> set ?rows" using b Cons.prems(2) by auto
    ultimately show "b \<noteq> a \<and> sess_session_id b \<noteq> sess_session_id a"
      using inj a_in by (auto dest: inj_onD)
  qed
  have sub1: "set cs \<subseteq> set (sessions (pending ?d1))"
  proof
    fix b assume b: "b \<in> set cs"
    then have "b \<in> set ?rows" "b \<noteq> a" using Cons.prems(2) not_a by auto
    then show "b \<in> set (sessions (pending ?d1))"
      unfolding rows1 by (auto simp: image_iff)
  qed
  have IH: "sessions (pending (foldl end_step ?d1 cs))
       = map (\<lambda>r. if r \<in> set cs then closed_row r else r) (sessions (pending ?d1))"
    using Cons.IH [OF d1 sub1] Cons.prems(3,4) by simp
  have closed_a_notin: "closed_row a \<notin> set cs"
    using not_a closed_id by metis
  have "map (\<lambda>r. if r \<in> set cs then closed_row r else r) (map (\<lambda>r. if r = a then closed_row a else r) ?rows)
      = map (\<lambda>r. if r \<in> set (a # cs) then closed_row r else r) ?rows"
    using closed_a_notin not_a by (auto simp: comp_def)
  then show ?case
    using IH rows1 by simp
qed

lemma foldl_end_step_other:
  "events (pending (foldl end_step d cs)) = events (pending d)
   \<and> server_now (foldl end_step d cs) = server_now d"
  by (induction cs arbitrary: d) (simp_all add: end_step_other)

text \<open>
  When every active session's start is timezone-aware (and the ids are distinct, as the
  primary key has it), one tick does what C9 says: each stale row is closed at its
  start plus 24 hours and every other row is unchanged.
\<close>

lemma close_stale_sessions_aware:
  assumes "distinct (map sess_session_id (sessions (pending d)))"
      and "\<forall>s \<in> set (sessions (pending d)). sess_end_time s = None \<longrightarrow> (\<exists>t off. sess_start_time s = Aware t off)"
  shows "close_stale_sessions now d
       = (commit (d\<lparr>pending := (pending d)\<lparr>sessions :=
                     map (close_if_stale now) (sessions (pending d))\<rparr>\<rparr>),
          Some (length (filter (is_stale now) (sessions (pending d)))))"
proof -
  let ?rows = "sessions (pending d)"
  let ?c = "now - hours 24"
  let ?as = "get_active_sessions d"
  let ?cs = "filter (\<lambda>a. instant (sess_start_time a) < ?c) ?as"
  have set_as: "set ?as = {s \<in> set ?rows. sess_end_time s = None}"
    by (auto simp: get_active_sessions_def)
  have dist_rows: "distinct ?rows"
    using assms(1) by (rule distinct_map [THEN iffD1, THEN conjunct1])
  have dist_as: "distinct ?as"
    using dist_rows by (simp add: get_active_sessions_def)
  have aware_as: "\<forall>a \<in> set ?as. \<exists>t off. sess_start_time a = Aware t off"
    using assms(2) set_as by auto
  have loop: "close_stale_loop d (Aware ?c 0) ?as 0 = (foldl end_step d ?cs, Inr (length ?cs))"
    using close_stale_loop_fold [OF aware_as, of d ?c 0 0] by simp
  have set_cs: "set ?cs = {s \<in> set ?rows. is_stale now s}"
    using set_as by (auto simp: is_stale_def)
  have sess: "sessions (pending (foldl end_step d ?cs))
       = map (\<lambda>r. if r \<in> set ?cs then closed_row r else r) ?rows"
    using assms(1) set_cs dist_as aware_as
    by (intro foldl_end_step_sessions) auto
  have "map (\<lambda>r. if r \<in> set ?cs then closed_row r else r) ?rows = map (close_if_stale now) ?rows"
    using set_cs by (auto simp: close_if_stale_def closed_row_def)
  then have sess': "sessions (pending (foldl end_step d ?cs)) = map (close_if_stale now) ?rows"
    using sess by simp
  have pend: "pending (foldl end_step d ?cs)
            = (pending d)\<lparr>sessions := map (close_if_stale now) ?rows\<rparr>"
    using sess' foldl_end_step_other [of d ?cs] by (intro tables.equality) simp_all
  have db: "commit (foldl end_step d ?cs)
          = commit (d\<lparr>pending := (pending d)\<lparr>sessions := map (close_if_stale now) ?rows\<rparr>\<rparr>)"
    using pend foldl_end_step_other [of d ?cs] by (intro db.equality) (simp_all add: commit_def)
  have len: "length ?cs = length (filter (is_stale now) ?rows)"
  proof -
    have "distinct ?cs" using dist_as by simp
    moreover have "distinct (filter (is_stale now) ?rows)" using dist_rows by simp
    moreover have "set ?cs = set (filter (is_stale now) ?rows)" using set_cs by auto
    ultimately show ?thesis by (metis distinct_card)
  qed
  show ?thesis
    using loop db len by (simp add: close_stale_sessions_def Let_def)
qed

section \<open>Live feed: what a connection receives\<close>

text \<open>The select by itself returns only rows later than the watermark, the newest first.\<close>

lemma select_events_since_later:
  assumes "e \<in> set (select_events_since d (Some s) cap)"
  shows "wall_clock (ensure_timezone_aware s) < timestamp e"
proof -
  have "e \<in> set (rev (sort_key timestamp
           (filter (\<lambda>e. timestamp e > wall_clock (ensure_timezone_aware s)) (events (pending d)))))"
    using assms set_take_subset by (fastforce simp: select_events_since_def Let_def)
  then show ?thesis by simp
qed

lemma select_events_since_head_newest:
  assumes "select_events_since d since cap = e # es"
  shows "\<forall>x \<in> set (e # es). timestamp x \<le> timestamp e"
proof -
  let ?rows = "case since of
          None \<Rightarrow> events (pending d)
        | Some s \<Rightarrow> filter (\<lambda>e. timestamp e > wall_clock (ensure_timezone_aware s))
                      (events (pending d))"
  have "sorted (map timestamp (sort_key timestamp ?rows))" by simp
  then have "sorted_wrt (\<lambda>a b. timestamp a \<le> timestamp b) (sort_key timestamp ?rows)"
    by (simp add: sorted_map)
  then have "sorted_wrt (\<lambda>a b. timestamp b \<le> timestamp a) (rev (sort_key timestamp ?rows))"
    by (simp add: sorted_wrt_rev)
  then have "sorted_wrt (\<lambda>a b. timestamp b \<le> timestamp a)
               (take cap (rev (sort_key timestamp ?rows)))"
    by (rule sorted_wrt_take)
  then have "sorted_wrt (\<lambda>a b. timestamp b \<le> timestamp a) (e # es)"
    using assms by (simp add: select_events_since_def Let_def)
  then show ?thesis by auto
qed

text \<open>A selection that holds an event is never returned, and the metrics never are.\<close>

lemma get_events_since_result:
  "get_events_since d since cap
     = (if select_events_since d since cap = [] then Inr [] else Inl AttributeError)"
  by (cases "select_events_since d since cap") (simp_all add: get_events_since_def Let_def)

lemma ws_loop_no_push: "ws_loop w ds = []"
proof (induction ds arbitrary: w)
  case Nil
  then show ?case by simp
next
  case (Cons d ds)
  then show ?case
    by (simp add: get_events_since_result get_metrics_data_def)
qed

lemma websocket_endpoint_no_push: "websocket_endpoint d ds = []"
  by (simp add: websocket_endpoint_def get_metrics_data_def split: sum.splits)


section \<open>Session tracking of a whole batch\<close>

text \<open>
  The same holds of a whole batch: the session tracking of \<^verbatim>\<open>ingest_batch\<close> leaves an
  existing session with a start that is not later than before.
\<close>

lemma update_sessions_start_not_later:
  assumes "session_get_by_id d sid = Some s"
  shows "\<exists>s'. session_get_by_id (update_sessions d evs) sid = Some s'
            \<and> instant (sess_start_time s') \<le> instant (sess_start_time s)"
proof (cases "map_of (collect_session_data evs) sid")
  case None
  then have "sid \<notin> fst ` set (collect_session_data evs)"
    by (simp add: map_of_eq_None_iff)
  then have "session_get_by_id (update_sessions d evs) sid = session_get_by_id d sid"
    unfolding update_sessions_def by (rule get_after_foldl_other)
  then show ?thesis using assms by simp
next
  case (Some v)
  obtain u m t where v: "v = (u, m, t)" by (cases v) auto
  have "session_get_by_id (update_sessions d evs) sid
      = Some (session_written sid u m t (session_event_count evs sid) (session_get_by_id d sid))"
    unfolding update_sessions_def
    using collect_session_data_distinct Some [unfolded v] by (rule get_after_foldl)
  then show ?thesis
    using assms by (simp add: session_written_def upsert_existing_start)
qed

text \<open>
  The scenario of the specification: three events of session \<open>s1\<close> at T, T+1 and T+2
  create the session with start T and event count 3.
\<close>

lemma ingest_three_events_scenario:
  "session_get_by_id
     (snd (ingest_batch \<lparr>max_batch_size = 1000, event_retention_days = 90\<rparr> 0 0 empty_db
        [sample_event 1 100 (Some ''test.user'') (Some ''s1''),
         sample_event 2 101 (Some ''test.user'') (Some ''s1''),
         sample_event 3 102 (Some ''test.user'') (Some ''s1'')] True)) ''s1''
     = Some \<lparr>sess_session_id = ''s1'', sess_user_name = Some ''test.user'',
              sess_machine_name = Some ''TEST-PC'', sess_start_time = Aware 100 0,
              sess_end_time = None, sess_event_count = 3\<rparr>
   \<and> accepted (fst (ingest_batch \<lparr>max_batch_size = 1000, event_retention_days = 90\<rparr> 0 0 empty_db
        [sample_event 1 100 (Some ''test.user'') (Some ''s1''),
         sample_event 2 101 (Some ''test.user'') (Some ''s1''),
         sample_event 3 102 (Some ''test.user'') (Some ''s1'')] True)) = 3"
  by (simp add: ingest_batch_def bulk_create_def bulk_create_try_def chunked.simps
        flush_events_def to_row_def sample_event_def update_sessions_def
        collect_session_data_def session_data_step_def upsert_and_count_def
        upsert_session_def increment_event_count_def session_event_count_def
        empty_db_def commit_def session_get_by_id_def Let_def)

end
